theory Spec2Isabelle
  imports Complex_Main "HOL-Library.Multiset"
begin

section \<open>Common model: errors, the pseudorandom source, the population\<close>

text \<open>
  The library is a set of C++ functors. Each \<open>operator()\<close> becomes a HOL function that
  takes the objects it receives by reference and returns them updated. A failed
  \<open>assert\<close> and an access outside a container are values of \<open>error\<close>. The
  floating-point type \<open>F\<close> (\<open>double\<close> in every test program) is modelled by \<open>real\<close>,
  without rounding or overflow, except where it is said otherwise: the product in the
  selection size is rounded, and stochastic universal sampling has the IEEE special
  values of its division.
\<close>

datatype error = AssertFail | OutOfRange

text \<open>
  The template parameter \<open>Rng\<close> is any uniform random bit generator. It is modelled as
  an infinite tape of raw draws; a distribution object reads one raw draw and maps it
  into its range, so that every theorem quantified over the tape holds for every engine.
\<close>

type_synonym rng = "nat \<Rightarrow> nat"

definition rng_next :: "rng \<Rightarrow> nat \<times> rng" where
  "rng_next g = (g 0, \<lambda>i. g (Suc i))"

text \<open>\<open>std::uniform_int_distribution<size_t>(a, b)\<close>: a value in \<open>[a, b]\<close>.\<close>

definition uniform_int :: "nat \<Rightarrow> nat \<Rightarrow> rng \<Rightarrow> nat \<times> rng" where
  "uniform_int a b g = (let (r, g') = rng_next g in (a + r mod (b - a + 1), g'))"

text \<open>\<open>std::uniform_real_distribution<F>(a, b)\<close>: \<open>a + (b - a) * u\<close> with \<open>u\<close> in \<open>[0, 1)\<close>.\<close>

definition canonical :: "rng \<Rightarrow> real \<times> rng" where
  "canonical g = (let (r, g') = rng_next g in (real (r mod 2 ^ 53) / 2 ^ 53, g'))"


text \<open>\<open>std::bernoulli_distribution(p)\<close>: true when the canonical draw is below \<open>p\<close>.\<close>

definition bernoulli :: "real \<Rightarrow> rng \<Rightarrow> bool \<times> rng" where
  "bernoulli p g = (let (u, g') = canonical g in (u < p, g'))"

subsection \<open>population.h\<close>

text \<open>
  \<open>SelectionSize\<close> has two public fields; the constructor from \<open>size_t\<close> sets
  \<open>count\<close> and leaves \<open>percentage = 0.0\<close>, the constructor from \<open>double\<close> sets
  \<open>percentage\<close> and leaves \<open>count = 0\<close>.
\<close>

record SelectionSize =
  count_sz :: nat
  percentage :: real

definition SelectionSize_default :: SelectionSize where
  "SelectionSize_default = \<lparr>count_sz = 0, percentage = 0\<rparr>"

definition SelectionSize_count :: "nat \<Rightarrow> SelectionSize" where
  "SelectionSize_count c = \<lparr>count_sz = c, percentage = 0\<rparr>"

definition SelectionSize_percentage :: "real \<Rightarrow> SelectionSize" where
  "SelectionSize_percentage p = \<lparr>count_sz = 0, percentage = p\<rparr>"

text \<open>
  \<open>SelectionSize::operator()(size_t size)\<close>. In the percentage branch the code
  converts \<open>size\<close> to \<open>double\<close>, multiplies in \<open>double\<close> and takes \<open>std::ceil\<close> of the
  rounded product. \<open>round_double x\<close> is the double nearest to \<open>x\<close>, a tie going to the
  even significand (53 bits; below \<open>2^-1022\<close> the doubles are evenly spaced; magnitudes
  from \<open>2^1024\<close> on, which no product here reaches, are not modelled).
  \<open>SelectionSize_call_double\<close> is the call with this arithmetic.
\<close>

definition round_even :: "real \<Rightarrow> int" where
  "round_even y =
     (let f = \<lfloor>y\<rfloor>; r = y - of_int f in
      if r < 1 / 2 then f else if r > 1 / 2 then f + 1 else if even f then f else f + 1)"

definition round_double :: "real \<Rightarrow> real" where
  "round_double x =
     (if x = 0 then 0
      else
        (let e = max \<lfloor>log 2 \<bar>x\<bar>\<rfloor> (- 1022);
             u = 2 powi (e - 52)
         in sgn x * (u * of_int (round_even (\<bar>x\<bar> / u)))))"

definition SelectionSize_call_double :: "SelectionSize \<Rightarrow> nat \<Rightarrow> error + nat" where
  "SelectionSize_call_double s sz =
     (if count_sz s > 0 then Inr (min (count_sz s) sz)
      else if percentage s \<ge> 0 \<and> percentage s \<le> 1
        then Inr (nat \<lceil>round_double (percentage s * round_double (real sz))\<rceil>)
        else Inl AssertFail)"

text \<open>
  \<open>SelectionSize_call\<close> is the same call with the product taken exactly. The
  operators below resolve their selection size with it. Their theorems are stated for
  whatever count the resolution gives and use of it only that it does not exceed the
  size; the count of \<open>SelectionSize_call_double\<close> is this one or one less, for every
  size below \<open>2^53\<close>.
\<close>

definition SelectionSize_call :: "SelectionSize \<Rightarrow> nat \<Rightarrow> error + nat" where
  "SelectionSize_call s sz =
     (if count_sz s > 0 then Inr (min (count_sz s) sz)
      else if percentage s \<ge> 0 \<and> percentage s \<le> 1
        then Inr (nat \<lceil>percentage s * real sz\<rceil>)
        else Inl AssertFail)"

text \<open>
  \<open>Individual<T, F>\<close>: the representation and its fitness; a negative fitness means
  dirty. \<open>Population<T, F>\<close> is a \<open>std::vector\<close> of individuals.
\<close>

record 'a Individual =
  data :: 'a
  fitness :: real

type_synonym 'a Population = "'a Individual list"

definition Individual_default :: "'a \<Rightarrow> 'a Individual" where
  "Individual_default d = \<lparr>data = d, fitness = - 1\<rparr>"

definition is_dirty :: "'a Individual \<Rightarrow> bool" where
  "is_dirty it = (fitness it < 0)"

definition mark_dirty :: "'a Individual \<Rightarrow> 'a Individual" where
  "mark_dirty it = it\<lparr>fitness := - 1\<rparr>"

text \<open>
  \<open>Evaluate\<close>: the fitness of each dirty individual is recomputed, in order; the
  evaluator must return a non-negative value (\<open>assert\<close>). The evaluator receives the
  representation and the generator by mutable reference, so the model's evaluator
  returns both with the fitness.
\<close>

fun Evaluate ::
  "('a \<Rightarrow> rng \<Rightarrow> real \<times> 'a \<times> rng) \<Rightarrow> 'a Population \<Rightarrow> rng \<Rightarrow> error + ('a Population \<times> rng)"
where
  "Evaluate func [] g = Inr ([], g)"
| "Evaluate func (it # pop) g =
     (if is_dirty it then
        (let (f, d, g') = func (data it) g in
         if f \<ge> 0 then
           (case Evaluate func pop g' of
              Inl e \<Rightarrow> Inl e
            | Inr (pop', g'') \<Rightarrow> Inr (\<lparr>data = d, fitness = f\<rparr> # pop', g''))
         else Inl AssertFail)
      else
        (case Evaluate func pop g of
           Inl e \<Rightarrow> Inl e
         | Inr (pop', g'') \<Rightarrow> Inr (it # pop', g'')))"

text \<open>
  \<open>std::sort(pop.begin(), pop.end(), std::greater<Individual>())\<close>: the population in
  descending order of fitness. \<open>std::sort\<close> promises a sorted permutation and no
  particular order among equal fitnesses; the model is one such sort, and the theorems
  use only that its result is a permutation in descending order.
\<close>

definition sort_desc :: "'a Population \<Rightarrow> 'a Population" where
  "sort_desc pop = sort_key (\<lambda>it. - fitness it) pop"


text \<open>
  \<open>std::shuffle\<close>: for each position \<open>i\<close> from 1 on, the element is exchanged with the
  one at a position drawn uniformly in \<open>[0, i]\<close>.
\<close>

definition swap_at :: "'a list \<Rightarrow> nat \<Rightarrow> nat \<Rightarrow> 'a list" where
  "swap_at xs i j = xs[i := xs ! j, j := xs ! i]"

definition shuffle :: "'a list \<Rightarrow> rng \<Rightarrow> 'a list \<times> rng" where
  "shuffle xs g =
     fold (\<lambda>i (ys, h). let (j, h') = uniform_int 0 i h in (swap_at ys i j, h'))
       [1..<length xs] (xs, g)"

subsection \<open>selection.h\<close>

text \<open>
  A selection functor receives the source and the destination by reference; the model
  returns both, with the generator. \<open>SelectionTruncate\<close> sorts the source and appends
  its first \<open>samples\<close> individuals.
\<close>

definition SelectionTruncate ::
  "SelectionSize \<Rightarrow> 'a Population \<Rightarrow> 'a Population \<Rightarrow> rng
     \<Rightarrow> error + ('a Population \<times> 'a Population \<times> rng)"
where
  "SelectionTruncate sz src dst g =
     (let src' = sort_desc src in
      case SelectionSize_call sz (length src') of
        Inl e \<Rightarrow> Inl e
      | Inr samples \<Rightarrow> Inr (src', dst @ take samples src', g))"
















subsection \<open>crossover.h\<close>

text \<open>
  \<open>std::swap_ranges(a.begin(), a.begin() + n, b.begin())\<close> exchanges the first \<open>n\<close>
  elements of the two vectors; a range that leaves either vector is an error.
\<close>

definition swap_ranges :: "nat \<Rightarrow> 'a list \<Rightarrow> 'a list \<Rightarrow> error + ('a list \<times> 'a list)" where
  "swap_ranges n a b =
     (if n \<le> length a \<and> n \<le> length b
      then Inr (take n b @ drop n a, take n a @ drop n b)
      else Inl OutOfRange)"

text \<open>
  \<open>CrossoverPoint\<close>: \<open>point_count\<close> times, an index is drawn in \<open>[0, size - 1]\<close>, with
  \<open>size\<close> the longer length, and the prefixes up to the index are exchanged. \<open>size - 1\<close>
  is computed in \<open>size_t\<close>: for two empty vectors it is \<open>2^64 - 1\<close>.
\<close>

fun CrossoverPoint_loop ::
  "nat \<Rightarrow> nat \<Rightarrow> 'a list \<Rightarrow> 'a list \<Rightarrow> rng \<Rightarrow> error + ('a list \<times> 'a list \<times> rng)"
where
  "CrossoverPoint_loop 0 hi value0 value1 g = Inr (value0, value1, g)"
| "CrossoverPoint_loop (Suc k) hi value0 value1 g =
     (let (index, g') = uniform_int 0 hi g in
      case swap_ranges index value0 value1 of
        Inl e \<Rightarrow> Inl e
      | Inr (value0', value1') \<Rightarrow> CrossoverPoint_loop k hi value0' value1' g')"

definition CrossoverPoint ::
  "int \<Rightarrow> 'a list \<Rightarrow> 'a list \<Rightarrow> rng \<Rightarrow> error + ('a list \<times> 'a list \<times> rng)"
where
  "CrossoverPoint point_count value0 value1 g =
     (let len = max (length value0) (length value1);
          hi = (if len = 0 then 2 ^ 64 - 1 else len - 1)
      in CrossoverPoint_loop (nat point_count) hi value0 value1 g)"

text \<open>
  \<open>CrossoverUniform\<close>: each aligned pair up to the shorter length is exchanged when a
  fair Bernoulli draw says so.
\<close>

definition CrossoverUniform ::
  "'a list \<Rightarrow> 'a list \<Rightarrow> rng \<Rightarrow> 'a list \<times> 'a list \<times> rng"
where
  "CrossoverUniform value0 value1 g =
     fold (\<lambda>i (v0, v1, h).
             let (b, h') = bernoulli (1 / 2) h in
             if b then (v0[i := v1 ! i], v1[i := v0 ! i], h') else (v0, v1, h'))
       [0..<min (length value0) (length value1)] (value0, value1, g)"

text \<open>
  \<open>CrossoverPmx\<close>. The inverse-position maps \<open>p0\<close>, \<open>p1\<close> are filled first; the
  \<open>assert\<close>s on the values stand in that loop. Once they have passed, every index used
  below is smaller than \<open>size\<close>.
\<close>

definition pmx_inverse :: "nat \<Rightarrow> nat list \<Rightarrow> nat list" where
  "pmx_inverse len v = fold (\<lambda>i p. p[v ! i := i]) [0..<len] (replicate len 0)"

definition pmx_step ::
  "nat \<Rightarrow> nat list \<times> nat list \<times> nat list \<times> nat list
     \<Rightarrow> nat list \<times> nat list \<times> nat list \<times> nat list"
where
  "pmx_step i st =
     (case st of (value0, value1, p0, p1) \<Rightarrow>
        let tmp0 = value0 ! i;
            tmp1 = value1 ! i;
            value0a = value0[i := tmp1];
            value1a = value1[i := tmp0];
            value0b = value0a[p0 ! tmp1 := tmp0];
            value1b = value1a[p1 ! tmp0 := tmp1];
            p0' = p0[tmp0 := p0 ! tmp1, tmp1 := p0 ! tmp0];
            p1' = p1[tmp0 := p1 ! tmp1, tmp1 := p1 ! tmp0]
        in (value0b, value1b, p0', p1'))"

definition CrossoverPmx ::
  "nat list \<Rightarrow> nat list \<Rightarrow> rng \<Rightarrow> error + (nat list \<times> nat list \<times> rng)"
where
  "CrossoverPmx value0 value1 g =
     (let len = min (length value0) (length value1);
          (i0, g1) = uniform_int 0 len g;
          (i1, g2) = uniform_int 0 len g1;
          index0 = (if i0 > i1 then i1 else i0);
          index1 = (if i0 > i1 then i0 else i1)
      in
        if index0 = index1 then Inr (value0, value1, g2)
        else if \<not> (list_all (\<lambda>x. x < len) (take len value0)
                   \<and> list_all (\<lambda>x. x < len) (take len value1))
          then Inl AssertFail
        else
          (case fold pmx_step [index0..<index1]
                  (value0, value1, pmx_inverse len value0, pmx_inverse len value1) of
             (value0', value1', p0, p1) \<Rightarrow> Inr (value0', value1', g2)))"

subsection \<open>replacement.h\<close>

text \<open>
  A replacement functor receives the offspring pool \<open>src\<close> and the population \<open>dst\<close>.
  \<open>ReplacementElitist\<close> takes the default-constructed individual that
  \<open>dst.resize(count)\<close> would append as the parameter \<open>d\<close>.
\<close>

definition ReplacementAll ::
  "'a Population \<Rightarrow> 'a Population \<Rightarrow> rng \<Rightarrow> error + ('a Population \<times> 'a Population \<times> rng)"
where
  "ReplacementAll src dst g = Inr ([], src, g)"


subsection \<open>termination.h\<close>

text \<open>
  \<open>std::max_element(pop.begin(), pop.end())\<close> with \<open>operator<\<close> on the fitness: the
  first individual of greatest fitness, none for an empty population.
\<close>

definition max_element :: "'a Population \<Rightarrow> 'a Individual option" where
  "max_element pop =
     (case pop of
        [] \<Rightarrow> None
      | it # rest \<Rightarrow> Some (fold (\<lambda>x best. if fitness best < fitness x then x else best) rest it))"

text \<open>
  \<open>TerminationStagnation<F>\<close>: the configured \<open>max_generations\<close> and the private
  members \<open>curr_generation_\<close> and \<open>best_fitness_\<close>. The counters are C++ \<open>int\<close>s; they
  are modelled by unbounded integers (a run that stops at the first \<open>true\<close> never
  counts past \<open>max_generations\<close>, itself an \<open>int\<close>).
\<close>

record TerminationStagnation =
  max_generations :: int
  curr_generation :: int
  best_fitness :: real

definition TerminationStagnation_init :: "int \<Rightarrow> TerminationStagnation" where
  "TerminationStagnation_init m = \<lparr>max_generations = m, curr_generation = 0, best_fitness = 0\<rparr>"

definition TerminationStagnation_call ::
  "TerminationStagnation \<Rightarrow> 'a Population \<Rightarrow> bool \<times> TerminationStagnation"
where
  "TerminationStagnation_call t pop =
     (case max_element pop of
        None \<Rightarrow> (True, t)
      | Some best \<Rightarrow>
          if fitness best > best_fitness t
          then (False, t\<lparr>best_fitness := fitness best, curr_generation := 0\<rparr>)
          else (curr_generation t + 1 \<ge> max_generations t,
                t\<lparr>curr_generation := curr_generation t + 1\<rparr>))"

text \<open>
  A termination functor is called with the population and the generator, both by
  mutable reference. In the model the call of a predicate takes the predicate's state
  and the pair of arguments, and returns the verdict, the new state and the arguments as
  the predicate leaves them. The library's own predicates follow; none of them writes
  to its arguments. \<open>TerminationTime\<close> compares the time elapsed since its
  construction with \<open>max_time\<close>; the reading of \<open>Clock::now()\<close> is an input of the
  call, in seconds.
\<close>

datatype Termination =
    Generation int int
  | Fitness real
  | Time int real
  | Stagnation TerminationStagnation
  | Flag bool

fun Termination_call ::
  "real \<Rightarrow> Termination \<Rightarrow> 'a Population \<times> rng
     \<Rightarrow> bool \<times> Termination \<times> ('a Population \<times> rng)"
where
  "Termination_call now (Generation max_gen cur_gen) args =
     (cur_gen + 1 \<ge> max_gen, Generation max_gen (cur_gen + 1), args)"
| "Termination_call now (Fitness target) args =
     (case max_element (fst args) of
        None \<Rightarrow> (True, Fitness target, args)
      | Some best \<Rightarrow> (fitness best \<ge> target, Fitness target, args))"
| "Termination_call now (Time max_time start_time) args =
     (now - start_time \<ge> of_int max_time, Time max_time start_time, args)"
| "Termination_call now (Stagnation t) args =
     (let (r, t') = TerminationStagnation_call t (fst args) in (r, Stagnation t', args))"
| "Termination_call now (Flag flag) args = (flag, Flag flag, args)"

text \<open>
  \<open>TerminationOr<Tp...>\<close> and \<open>TerminationAnd<Tp...>\<close> hold a tuple of predicates of
  any types. The model is a list of members of any type \<open>'m\<close> with the function that
  calls a member; a tuple of different predicate types is a list over their sum, and a
  combinator inside a combinator is a member whose call is the combinator's call.

  \<open>Check<I>(Args... args)\<close> takes its arguments by value: the member \<open>I\<close> is called on
  this copy, which it may write to, and \<open>Check<I + 1>\<close> receives a copy of that.
  \<open>operator()\<close> calls \<open>Check(pop, rng)\<close>, so the caller's population and generator
  are never written to.
\<close>

fun TerminationOr_Check ::
  "('m \<Rightarrow> 'x \<Rightarrow> bool \<times> 'm \<times> 'x) \<Rightarrow> 'm list \<Rightarrow> 'x \<Rightarrow> bool \<times> 'm list"
where
  "TerminationOr_Check call [] args = (False, [])"
| "TerminationOr_Check call (f # funcs) args =
     (let (r, f', args') = call f args in
      if r then (True, f' # funcs)
      else (let (r', funcs') = TerminationOr_Check call funcs args' in (r', f' # funcs')))"

definition TerminationOr_call ::
  "('m \<Rightarrow> 'x \<Rightarrow> bool \<times> 'm \<times> 'x) \<Rightarrow> 'm list \<Rightarrow> 'x \<Rightarrow> bool \<times> 'm list \<times> 'x"
where
  "TerminationOr_call call funcs args =
     (let (r, funcs') = TerminationOr_Check call funcs args in (r, funcs', args))"

fun TerminationAnd_Check ::
  "('m \<Rightarrow> 'x \<Rightarrow> bool \<times> 'm \<times> 'x) \<Rightarrow> 'm list \<Rightarrow> 'x \<Rightarrow> bool \<times> 'm list"
where
  "TerminationAnd_Check call [] args = (True, [])"
| "TerminationAnd_Check call (f # funcs) args =
     (let (r, f', args') = call f args in
      if r then (let (r', funcs') = TerminationAnd_Check call funcs args' in (r', f' # funcs'))
      else (False, f' # funcs))"

definition TerminationAnd_call ::
  "('m \<Rightarrow> 'x \<Rightarrow> bool \<times> 'm \<times> 'x) \<Rightarrow> 'm list \<Rightarrow> 'x \<Rightarrow> bool \<times> 'm list \<times> 'x"
where
  "TerminationAnd_call call funcs args =
     (let (r, funcs') = TerminationAnd_Check call funcs args in (r, funcs', args))"

text \<open>
  An example of a tuple of two predicate types: a member is a library predicate or an
  \<open>And\<close> over library predicates, and is called accordingly.
\<close>

definition Termination_member_call ::
  "real \<Rightarrow> Termination + Termination list \<Rightarrow> 'a Population \<times> rng
     \<Rightarrow> bool \<times> (Termination + Termination list) \<times> ('a Population \<times> rng)"
where
  "Termination_member_call now m args =
     (case m of
        Inl t \<Rightarrow> (let (r, t', args') = Termination_call now t args in (r, Inl t', args'))
      | Inr funcs \<Rightarrow>
          (let (r, funcs', args') = TerminationAnd_call (Termination_call now) funcs args
           in (r, Inr funcs', args')))"

subsection \<open>pbil.h\<close>

text \<open>
  \<open>PbilUpdate<ProbT, Size>\<close>. The probability vector \<open>dist.prob\<close> is a list of length
  \<open>Size\<close>; \<open>test d i\<close> is the representation's \<open>d[i]\<close> (a \<open>std::bitset<Size>\<close> in the
  test program, so every position below \<open>Size\<close> can be read). The update reads the
  first \<open>best_count\<close> individuals after \<open>std::sort\<close>, and which individuals of equal
  fitness come first there is the standard library's choice: the sort is the parameter
  \<open>std_sort\<close> of the model, and the theorems assume of it only what \<open>std::sort\<close>
  promises.
\<close>

record PbilUpdate =
  rate :: real
  best_count :: nat
  mutation_prob :: real
  mutation_shift :: real
  lower_bound :: real
  upper_bound :: real

definition PbilUpdate_position ::
  "PbilUpdate \<Rightarrow> ('a \<Rightarrow> nat \<Rightarrow> bool) \<Rightarrow> 'a Population \<Rightarrow> real \<Rightarrow> nat \<Rightarrow> rng \<Rightarrow> real \<times> rng"
where
  "PbilUpdate_position u test ranked prob_i i g =
     (let p0 = prob_i * (1 - rate u);
          lr = rate u / real (best_count u);
          p1 = fold (\<lambda>j p. if test (data (ranked ! j)) i then p + lr else p)
                 [0..<best_count u] p0;
          (m, g1) = bernoulli (mutation_prob u) g;
          (p2, g2) =
            (if m then
               (let q = p1 * (1 - mutation_shift u);
                    (f, h) = bernoulli (1 / 2) g1
                in (if f then q + mutation_shift u else q, h))
             else (p1, g1))
      in (min (max p2 (lower_bound u)) (upper_bound u), g2))"

definition PbilUpdate_call ::
  "PbilUpdate \<Rightarrow> ('a Population \<Rightarrow> 'a Population) \<Rightarrow> ('a \<Rightarrow> nat \<Rightarrow> bool) \<Rightarrow> real list
     \<Rightarrow> 'a Population \<Rightarrow> rng \<Rightarrow> error + (real list \<times> 'a Population \<times> rng)"
where
  "PbilUpdate_call u std_sort test prob population g =
     (if \<not> (best_count u > 0 \<and> best_count u \<le> length population) then Inl AssertFail
      else
        (let ranked = std_sort population;
             (prob', g') =
               fold (\<lambda>i (pr, h).
                       let (p, h') = PbilUpdate_position u test ranked (pr ! i) i h
                       in (pr[i := p], h'))
                 [0..<length prob] (prob, g)
         in Inr (prob', ranked, g')))"

subsection \<open>ga.h\<close>

text \<open>
  \<open>Ga\<close> holds the two rates and the six functors. The functors are parameters of the
  model: each returns what it received by mutable reference. The functors of the
  library hold configuration only, except the termination predicates, which count; so
  the termination functor is a state with its call, and the others are functions.
\<close>

record ('a, 't) Ga =
  mutation_rate :: real
  crossover_rate :: real
  evaluation :: "'a \<Rightarrow> rng \<Rightarrow> real \<times> 'a \<times> rng"
  selection :: "'a Population \<Rightarrow> 'a Population \<Rightarrow> rng
                  \<Rightarrow> error + ('a Population \<times> 'a Population \<times> rng)"
  crossover :: "'a \<Rightarrow> 'a \<Rightarrow> rng \<Rightarrow> error + ('a \<times> 'a \<times> rng)"
  mutation :: "'a \<Rightarrow> rng \<Rightarrow> error + ('a \<times> rng)"
  replacement :: "'a Population \<Rightarrow> 'a Population \<Rightarrow> rng
                  \<Rightarrow> error + ('a Population \<times> 'a Population \<times> rng)"
  termination_state :: 't
  termination_call :: "'t \<Rightarrow> 'a Population \<times> rng \<Rightarrow> bool \<times> 't \<times> ('a Population \<times> rng)"

definition Ga_cross ::
  "('a, 't) Ga \<Rightarrow> 'a Individual \<Rightarrow> 'a Individual \<Rightarrow> rng
     \<Rightarrow> error + ('a Individual \<times> 'a Individual \<times> rng)"
where
  "Ga_cross G child0 child1 g =
     (let (c, g1) = bernoulli (crossover_rate G) g in
      if c then
        (case crossover G (data child0) (data child1) g1 of
           Inl e \<Rightarrow> Inl e
         | Inr (d0, d1, g2) \<Rightarrow>
             Inr (mark_dirty (child0\<lparr>data := d0\<rparr>), mark_dirty (child1\<lparr>data := d1\<rparr>), g2))
      else Inr (child0, child1, g1))"

definition Ga_mutate ::
  "('a, 't) Ga \<Rightarrow> 'a Individual \<Rightarrow> rng \<Rightarrow> error + ('a Individual \<times> rng)"
where
  "Ga_mutate G child g =
     (let (m, g1) = bernoulli (mutation_rate G) g in
      if m then
        (case mutation G (data child) g1 of
           Inl e \<Rightarrow> Inl e
         | Inr (d, g2) \<Rightarrow> Inr (mark_dirty (child\<lparr>data := d\<rparr>), g2))
      else Inr (child, g1))"

text \<open>The loop over the adjacent pairs of the shuffled pool; an odd last one is kept.\<close>

fun Ga_pairs ::
  "('a, 't) Ga \<Rightarrow> 'a Population \<Rightarrow> rng \<Rightarrow> error + ('a Population \<times> rng)"
where
  "Ga_pairs G (child0 # child1 # rest) g =
     (case Ga_cross G child0 child1 g of
        Inl e \<Rightarrow> Inl e
      | Inr (a0, a1, g1) \<Rightarrow>
          (case Ga_mutate G a0 g1 of
             Inl e \<Rightarrow> Inl e
           | Inr (b0, g2) \<Rightarrow>
               (case Ga_mutate G a1 g2 of
                  Inl e \<Rightarrow> Inl e
                | Inr (b1, g3) \<Rightarrow>
                    (case Ga_pairs G rest g3 of
                       Inl e \<Rightarrow> Inl e
                     | Inr (rest', g4) \<Rightarrow> Inr (b0 # b1 # rest', g4)))))"
| "Ga_pairs G rest g = Inr (rest, g)"

text \<open>
  \<open>Ga::operator()\<close>: one evolution step. The result is the verdict, the population, the
  functor object (its termination state may have advanced) and the generator.
\<close>

definition Ga_step ::
  "('a, 't) Ga \<Rightarrow> 'a Population \<Rightarrow> rng
     \<Rightarrow> error + (bool \<times> 'a Population \<times> ('a, 't) Ga \<times> rng)"
where
  "Ga_step G population g =
     (if \<not> (mutation_rate G \<ge> 0 \<and> mutation_rate G \<le> 1) then Inl AssertFail
      else if \<not> (crossover_rate G \<ge> 0 \<and> crossover_rate G \<le> 1) then Inl AssertFail
      else if population = [] then Inr (True, population, G, g)
      else
        (case Evaluate (evaluation G) population g of
           Inl e \<Rightarrow> Inl e
         | Inr (pop1, g1) \<Rightarrow>
             (case selection G pop1 [] g1 of
                Inl e \<Rightarrow> Inl e
              | Inr (pop2, tmp, g2) \<Rightarrow>
                  (if tmp = [] then Inr (False, pop2, G, g2)
                   else
                     (let (tmp1, g3) = shuffle tmp g2 in
                      (case Ga_pairs G tmp1 g3 of
                         Inl e \<Rightarrow> Inl e
                       | Inr (tmp2, g4) \<Rightarrow>
                           (case replacement G tmp2 pop2 g4 of
                              Inl e \<Rightarrow> Inl e
                            | Inr (tmp3, pop3, g5) \<Rightarrow>
                                (let (r, t', pop4, g6) =
                                       termination_call G (termination_state G) (pop3, g5)
                                 in Inr (r, pop4, G\<lparr>termination_state := t'\<rparr>, g6)))))))))"

subsection \<open>island_model.h, migration.h\<close>

text \<open>An island is a population with the genetic algorithm that steps it.\<close>

record ('a, 'ga) Island =
  pop :: "'a Population"
  ga :: 'ga

definition push_back :: "nat \<Rightarrow> 'a Individual \<Rightarrow> ('a, 'ga) Island list \<Rightarrow> ('a, 'ga) Island list" where
  "push_back k it islands = islands[k := (islands ! k)\<lparr>pop := pop (islands ! k) @ [it]\<rparr>]"

definition erase_last :: "nat \<Rightarrow> nat \<Rightarrow> ('a, 'ga) Island list \<Rightarrow> ('a, 'ga) Island list" where
  "erase_last k cnt islands =
     islands[k := (islands ! k)\<lparr>pop := take (length (pop (islands ! k)) - cnt) (pop (islands ! k))\<rparr>]"

text \<open>The loop over the islands: the body may fail on an assertion.\<close>

fun for_islands ::
  "(nat \<Rightarrow> 's \<Rightarrow> error + 's) \<Rightarrow> nat list \<Rightarrow> 's \<Rightarrow> error + 's"
where
  "for_islands body [] s = Inr s"
| "for_islands body (i # is) s =
     (case body i s of Inl e \<Rightarrow> Inl e | Inr s' \<Rightarrow> for_islands body is s')"

text \<open>
  \<open>MigrationRandom\<close>: the last \<open>count\<close> individuals of the shuffled island \<open>i\<close> go, one
  by one, to an island drawn in \<open>[1, n - 1]\<close>, with island 0 standing in for a draw of
  \<open>i\<close> itself; they are then erased from island \<open>i\<close>.
\<close>

fun MigrationRandom_send ::
  "nat \<Rightarrow> 'a Population \<Rightarrow> ('a, 'ga) Island list \<Rightarrow> rng \<Rightarrow> ('a, 'ga) Island list \<times> rng"
where
  "MigrationRandom_send i [] islands g = (islands, g)"
| "MigrationRandom_send i (it # rest) islands g =
     (let (index, g') = uniform_int 1 (length islands - 1) g;
          index' = (if index = i then 0 else index)
      in MigrationRandom_send i rest (push_back index' it islands) g')"

definition MigrationRandom_island ::
  "SelectionSize \<Rightarrow> nat \<Rightarrow> ('a, 'ga) Island list \<times> rng \<Rightarrow> error + (('a, 'ga) Island list \<times> rng)"
where
  "MigrationRandom_island sz i st =
     (case st of (islands, g) \<Rightarrow>
        let (src, g1) = shuffle (pop (islands ! i)) g;
            islands1 = islands[i := (islands ! i)\<lparr>pop := src\<rparr>]
        in case SelectionSize_call sz (length src) of
             Inl e \<Rightarrow> Inl e
           | Inr cnt \<Rightarrow>
               (let (islands2, g2) =
                      MigrationRandom_send i (drop (length src - cnt) src) islands1 g1
                in Inr (erase_last i cnt islands2, g2)))"

definition MigrationRandom ::
  "SelectionSize \<Rightarrow> ('a, 'ga) Island list \<Rightarrow> rng \<Rightarrow> error + (('a, 'ga) Island list \<times> rng)"
where
  "MigrationRandom sz islands g =
     (if \<not> length islands > 1 then Inl AssertFail
      else for_islands (MigrationRandom_island sz) [0..<length islands] (islands, g))"

text \<open>
  \<open>MigrationRing\<close>: the last \<open>count\<close> individuals of the shuffled island \<open>i\<close> are moved
  to the end of island \<open>i + 1\<close>, island 0 following the last one.
\<close>

definition MigrationRing_island ::
  "SelectionSize \<Rightarrow> nat \<Rightarrow> ('a, 'ga) Island list \<times> rng \<Rightarrow> error + (('a, 'ga) Island list \<times> rng)"
where
  "MigrationRing_island sz i st =
     (case st of (islands, g) \<Rightarrow>
        let (src, g1) = shuffle (pop (islands ! i)) g;
            islands1 = islands[i := (islands ! i)\<lparr>pop := src\<rparr>];
            index = (if i + 1 \<ge> length islands then 0 else i + 1)
        in case SelectionSize_call sz (length src) of
             Inl e \<Rightarrow> Inl e
           | Inr cnt \<Rightarrow>
               (let islands2 =
                      islands1[index := (islands1 ! index)
                         \<lparr>pop := pop (islands1 ! index) @ drop (length src - cnt) src\<rparr>]
                in Inr (erase_last i cnt islands2, g1)))"

definition MigrationRing ::
  "SelectionSize \<Rightarrow> ('a, 'ga) Island list \<Rightarrow> rng \<Rightarrow> error + (('a, 'ga) Island list \<times> rng)"
where
  "MigrationRing sz islands g =
     (if \<not> length islands > 1 then Inl AssertFail
      else for_islands (MigrationRing_island sz) [0..<length islands] (islands, g))"

section \<open>Predicates used in the statements\<close>

text \<open>
  Two vectors after a crossover hold, at every position, the same unordered pair of
  values as before it, and have kept their lengths.
\<close>

definition pairs_kept :: "'a list \<Rightarrow> 'a list \<Rightarrow> 'a list \<Rightarrow> 'a list \<Rightarrow> bool" where
  "pairs_kept a b a' b' \<longleftrightarrow>
     length a' = length a \<and> length b' = length b \<and>
     (\<forall>i < length a. {a' ! i, b' ! i} = {a ! i, b ! i})"

text \<open>The greatest fitness of a non-empty population.\<close>

definition best_fitness_of :: "'a Population \<Rightarrow> real" where
  "best_fitness_of P = Max (fitness ` set P)"

text \<open>
  The verdicts of a stagnation predicate called once on each population of a sequence,
  in order.
\<close>

fun Stagnation_verdicts :: "TerminationStagnation \<Rightarrow> 'a Population list \<Rightarrow> bool list" where
  "Stagnation_verdicts t [] = []"
| "Stagnation_verdicts t (P # Ps) =
     (let (r, t') = TerminationStagnation_call t P in r # Stagnation_verdicts t' Ps)"

text \<open>
  A small genetic algorithm for the concrete runs below: every evaluation gives fitness
  5, truncation selection with the default (zero) selection size picks nobody.
\<close>

definition Ga_example :: "(unit, unit) Ga" where
  "Ga_example =
     \<lparr>mutation_rate = 0, crossover_rate = 0,
      evaluation = (\<lambda>d g. (5, d, g)),
      selection = SelectionTruncate SelectionSize_default,
      crossover = (\<lambda>a b g. Inr (a, b, g)),
      mutation = (\<lambda>a g. Inr (a, g)),
      replacement = ReplacementAll,
      termination_state = (),
      termination_call = (\<lambda>t args. (False, t, args))\<rparr>"

text \<open>All individuals of all islands, as a multiset.\<close>

definition individuals_of :: "('a, 'ga) Island list \<Rightarrow> 'a Individual multiset" where
  "individuals_of islands = sum_list (map (\<lambda>isl. mset (pop isl)) islands)"

text \<open>
  What one island's turn in a migration does: island \<open>i\<close> keeps a prefix of a
  rearrangement of its population, every other island keeps what it had and may receive
  individuals at its end, and over all islands no individual is lost or duplicated, so
  that each individual that left island \<open>i\<close> is in exactly one other island.
\<close>

definition moved_out :: "nat \<Rightarrow> ('a, 'ga) Island list \<Rightarrow> ('a, 'ga) Island list \<Rightarrow> bool" where
  "moved_out i islands islands' \<longleftrightarrow>
     length islands' = length islands \<and>
     individuals_of islands' = individuals_of islands \<and>
     (\<exists>src cnt. mset src = mset (pop (islands ! i)) \<and> cnt \<le> length src \<and>
        pop (islands' ! i) = take (length src - cnt) src \<and>
        (\<forall>j < length islands. j \<noteq> i \<longrightarrow>
           (\<exists>added. pop (islands' ! j) = pop (islands ! j) @ added)))"

text \<open>Two islands for the concrete runs below, with three individuals in all.\<close>

definition Islands_example :: "(nat, unit) Island list" where
  "Islands_example =
     [\<lparr>pop = [\<lparr>data = 1, fitness = 1\<rparr>, \<lparr>data = 2, fitness = 2\<rparr>], ga = ()\<rparr>,
      \<lparr>pop = [\<lparr>data = 3, fitness = 3\<rparr>], ga = ()\<rparr>]"

definition Islands_example_after :: "(nat, unit) Island list" where
  "Islands_example_after =
     [\<lparr>pop = [\<lparr>data = 2, fitness = 2\<rparr>, \<lparr>data = 3, fitness = 3\<rparr>], ga = ()\<rparr>,
      \<lparr>pop = [\<lparr>data = 1, fitness = 1\<rparr>], ga = ()\<rparr>]"

text \<open>
  The frequency of set bits at position \<open>i\<close> among the first \<open>n\<close> individuals of a
  population.
\<close>

definition set_frequency :: "('a \<Rightarrow> nat \<Rightarrow> bool) \<Rightarrow> 'a Population \<Rightarrow> nat \<Rightarrow> nat \<Rightarrow> real" where
  "set_frequency test P n i =
     real (length (filter (\<lambda>j. test (data (P ! j)) i) [0..<n])) / real n"

text \<open>A PBIL configuration for the concrete runs below: every position is mutated.\<close>

definition Pbil_example :: PbilUpdate where
  "Pbil_example =
     \<lparr>rate = 1 / 2, best_count = 1, mutation_prob = 1, mutation_shift = 1 / 5,
      lower_bound = 0, upper_bound = 1\<rparr>"

text \<open>
  A vector and a position map that are inverse to each other on \<open>0, \<dots>, n - 1\<close>: the
  relation between a parent and its map \<open>p0\<close> or \<open>p1\<close> during partially-matched
  crossover.
\<close>

definition inverse_maps :: "nat \<Rightarrow> nat list \<Rightarrow> nat list \<Rightarrow> bool" where
  "inverse_maps n v p \<longleftrightarrow>
     length v = n \<and> length p = n \<and>
     (\<forall>i < n. v ! i < n \<and> p ! (v ! i) = i) \<and>
     (\<forall>t < n. p ! t < n \<and> v ! (p ! t) = t)"

text \<open>
  The members of a combinator called one after the other, from the left, none skipped:
  each on the arguments as the one before it left them. The list gives each member's
  verdict and the state it is left in.
\<close>

fun members_run :: "('m \<Rightarrow> 'x \<Rightarrow> bool \<times> 'm \<times> 'x) \<Rightarrow> 'm list \<Rightarrow> 'x \<Rightarrow> (bool \<times> 'm) list" where
  "members_run call [] args = []"
| "members_run call (f # funcs) args =
     (let (r, f', args') = call f args in (r, f') # members_run call funcs args')"

text \<open>
  The draws of the PBIL update at one position, in the order the code makes them: the
  mutation draw, then the direction draw when the mutation fires. \<open>pbil_tape u g i\<close> is
  the generator when the update reaches position \<open>i\<close>.
\<close>

definition pbil_draws :: "PbilUpdate \<Rightarrow> rng \<Rightarrow> bool \<times> bool \<times> rng" where
  "pbil_draws u h =
     (let (m, h1) = bernoulli (mutation_prob u) h in
      if m then (let (f, h2) = bernoulli (1 / 2) h1 in (True, f, h2))
      else (False, False, h1))"

fun pbil_tape :: "PbilUpdate \<Rightarrow> rng \<Rightarrow> nat \<Rightarrow> rng" where
  "pbil_tape u g 0 = g"
| "pbil_tape u g (Suc i) = snd (snd (pbil_draws u (pbil_tape u g i)))"

section \<open>Verified properties\<close>

subsection \<open>SelectionSize\<close>

lemma fraction_le:
  fixes p :: real
  assumes "0 \<le> p" "p \<le> 1"
  shows "p * real n \<le> real n"
proof -
  have "p * real n \<le> 1 * real n"
    using assms by (intro mult_right_mono) simp_all
  then show ?thesis by simp
qed

lemma ceiling_fraction_le:
  fixes p :: real
  assumes "0 \<le> p" "p \<le> 1"
  shows "nat \<lceil>p * real n\<rceil> \<le> n"
  using fraction_le [OF assms, of n] by simp

lemma SelectionSize_call_le:
  "SelectionSize_call s n = Inr k \<Longrightarrow> k \<le> n"
  by (auto simp: SelectionSize_call_def fraction_le split: if_splits)

subsection \<open>Sorting and shuffling\<close>




subsection \<open>Elitist replacement\<close>



subsection \<open>N-point and uniform crossover\<close>

lemma pairs_kept_refl: "pairs_kept a b a b"
  by (simp add: pairs_kept_def)

lemma pairs_kept_trans:
  "pairs_kept a b a' b' \<Longrightarrow> pairs_kept a' b' a'' b'' \<Longrightarrow> pairs_kept a b a'' b''"
  by (simp add: pairs_kept_def)

lemma uniform_int_le: "a \<le> b \<Longrightarrow> fst (uniform_int a b g) \<le> b"
proof -
  assume ab: "a \<le> b"
  have "g 0 mod (b - a + 1) < b - a + 1" by simp
  then have "a + g 0 mod (b - a + 1) \<le> b" using ab by linarith
  then show ?thesis by (simp add: uniform_int_def rng_next_def)
qed

lemma uniform_int_ge: "a \<le> fst (uniform_int a b g)"
  by (simp add: uniform_int_def rng_next_def)

lemma swap_ranges_pairs:
  assumes "length a = length b" "swap_ranges n a b = Inr (a', b')"
  shows "pairs_kept a b a' b'"
proof -
  from assms have n: "n \<le> length a" "n \<le> length b"
    and a': "a' = take n b @ drop n a" and b': "b' = take n a @ drop n b"
    by (auto simp: swap_ranges_def split: if_splits)
  have "{a' ! i, b' ! i} = {a ! i, b ! i}" if "i < length a" for i
    using that n assms(1) unfolding a' b'
    by (cases "i < n") (auto simp: nth_append)
  then show ?thesis
    using n assms(1) unfolding pairs_kept_def a' b' by simp
qed

lemma CrossoverPoint_loop_pairs:
  "length a = length b \<Longrightarrow> CrossoverPoint_loop k hi a b g = Inr (a', b', g')
     \<Longrightarrow> pairs_kept a b a' b'"
proof (induction k arbitrary: a b g)
  case 0
  then show ?case by (simp add: pairs_kept_refl)
next
  case (Suc k)
  obtain index h where d: "uniform_int 0 hi g = (index, h)" by (cases "uniform_int 0 hi g")
  from Suc.prems(2) d obtain a1 b1 where
    s: "swap_ranges index a b = Inr (a1, b1)"
    and r: "CrossoverPoint_loop k hi a1 b1 h = Inr (a', b', g')"
    by (auto split: sum.splits)
  have p: "pairs_kept a b a1 b1"
    using Suc.prems(1) s by (rule swap_ranges_pairs)
  then have "length a1 = length b1"
    using Suc.prems(1) by (simp add: pairs_kept_def)
  then have "pairs_kept a1 b1 a' b'"
    using r by (rule Suc.IH)
  with p show ?case by (rule pairs_kept_trans)
qed

lemma CrossoverPoint_loop_total:
  "length a = length b \<Longrightarrow> hi \<le> length a
     \<Longrightarrow> \<exists>a' b' g'. CrossoverPoint_loop k hi a b g = Inr (a', b', g')"
proof (induction k arbitrary: a b g)
  case 0
  then show ?case by simp
next
  case (Suc k)
  obtain index h where d: "uniform_int 0 hi g = (index, h)" by (cases "uniform_int 0 hi g")
  have "index \<le> hi" using uniform_int_le [of 0 hi g] d by simp
  then have s: "swap_ranges index a b = Inr (take index b @ drop index a, take index a @ drop index b)"
    using Suc.prems by (simp add: swap_ranges_def)
  have "length (take index b @ drop index a) = length (take index a @ drop index b)"
    using Suc.prems by simp
  moreover have "hi \<le> length (take index b @ drop index a)"
    using Suc.prems \<open>index \<le> hi\<close> by simp
  ultimately obtain a' b' g' where
    "CrossoverPoint_loop k hi (take index b @ drop index a) (take index a @ drop index b) h
       = Inr (a', b', g')"
    using Suc.IH by blast
  then show ?case using d s by simp
qed

lemma uniform_fold_pairs:
  "k \<le> length a \<Longrightarrow> length a = length b \<Longrightarrow>
   fold (\<lambda>i (v0, v1, h).
             let (c, h') = bernoulli (1 / 2) h in
             if c then (v0[i := v1 ! i], v1[i := v0 ! i], h') else (v0, v1, h'))
       [0..<k] (a, b, g) = (a', b', g') \<Longrightarrow> pairs_kept a b a' b'"
proof (induction k arbitrary: a' b' g')
  case 0
  then show ?case by (simp add: pairs_kept_refl)
next
  case (Suc k)
  let ?f = "\<lambda>i (v0, v1, h).
             let (c, h') = bernoulli (1 / 2) h in
             if c then (v0[i := v1 ! i], v1[i := v0 ! i], h') else (v0, v1, h')"
  obtain a1 b1 g1 where f: "fold ?f [0..<k] (a, b, g) = (a1, b1, g1)"
    by (cases "fold ?f [0..<k] (a, b, g)")
  have p: "pairs_kept a b a1 b1"
    using Suc.prems(1,2) f by (intro Suc.IH) simp_all
  obtain c h where b: "bernoulli (1 / 2) g1 = (c, h)" by (cases "bernoulli (1 / 2) g1")
  have step: "(a', b', g') = (if c then (a1[k := b1 ! k], b1[k := a1 ! k], h) else (a1, b1, h))"
    using Suc.prems(3) f b by simp
  have len: "length a1 = length a" "length b1 = length b"
    using p by (simp_all add: pairs_kept_def)
  have "pairs_kept a1 b1 a' b'"
  proof (cases c)
    case True
    then have e: "a' = a1[k := b1 ! k]" "b' = b1[k := a1 ! k]" using step by simp_all
    have "{a' ! i, b' ! i} = {a1 ! i, b1 ! i}" if "i < length a1" for i
      using that len Suc.prems(1,2) unfolding e
      by (cases "i = k") auto
    then show ?thesis unfolding pairs_kept_def e by simp
  next
    case False
    then show ?thesis using step by (simp add: pairs_kept_refl)
  qed
  with p show ?case by (rule pairs_kept_trans)
qed

text \<open>
  Claim C10. For two parents of equal length and every generator, N-point crossover
  (whenever it returns, and it returns for every non-empty pair) and uniform crossover
  leave at every position the unordered pair of values the two parents held there, and
  keep both lengths. For two empty parents the index of N-point crossover is drawn from
  \<open>[0, 2^64 - 1]\<close> and the exchanged range may leave the vectors.
\<close>

theorem crossover_keeps_aligned_pairs:
  assumes "length value0 = length value1"
  shows "(\<forall>v0 v1 g'. CrossoverPoint point_count value0 value1 g = Inr (v0, v1, g')
            \<longrightarrow> pairs_kept value0 value1 v0 v1)
       \<and> (value0 \<noteq> [] \<longrightarrow>
            (\<exists>v0 v1 g'. CrossoverPoint point_count value0 value1 g = Inr (v0, v1, g')))
       \<and> (\<forall>v0 v1 g'. CrossoverUniform value0 value1 g = (v0, v1, g')
            \<longrightarrow> pairs_kept value0 value1 v0 v1)"
proof (intro conjI allI impI)
  fix v0 v1 g'
  assume "CrossoverPoint point_count value0 value1 g = Inr (v0, v1, g')"
  then show "pairs_kept value0 value1 v0 v1"
    using assms unfolding CrossoverPoint_def Let_def
    by (intro CrossoverPoint_loop_pairs)
next
  assume ne: "value0 \<noteq> []"
  then have m: "max (length value0) (length value1) \<noteq> 0"
    by simp
  have "max (length value0) (length value1) - 1 \<le> length value0"
    using assms by simp
  then have "\<exists>v0 v1 g'. CrossoverPoint_loop (nat point_count)
      (max (length value0) (length value1) - 1) value0 value1 g = Inr (v0, v1, g')"
    using assms by (intro CrossoverPoint_loop_total)
  then show "\<exists>v0 v1 g'. CrossoverPoint point_count value0 value1 g = Inr (v0, v1, g')"
    using m ne unfolding CrossoverPoint_def Let_def by simp
next
  fix v0 v1 g'
  assume "CrossoverUniform value0 value1 g = (v0, v1, g')"
  then show "pairs_kept value0 value1 v0 v1"
    using assms unfolding CrossoverUniform_def
    by (intro uniform_fold_pairs [where k = "length value0"]) simp_all
qed


theorem crossover_keeps_aligned_pairs_witness:
  "length [1, 2, 3 :: nat] = length [4, 5, 6 :: nat]
   \<and> (\<exists>g'. CrossoverPoint 1 [1, 2, 3 :: nat] [4, 5, 6] (\<lambda>_. 4) = Inr ([4, 2, 3], [1, 5, 6], g'))
   \<and> pairs_kept [1, 2, 3 :: nat] [4, 5, 6] [4, 2, 3] [1, 5, 6]
   \<and> (\<exists>g'. CrossoverUniform [1, 2, 3 :: nat] [4, 5, 6] (\<lambda>_. 0) = ([4, 5, 6], [1, 2, 3], g'))
   \<and> pairs_kept [1, 2, 3 :: nat] [4, 5, 6] [4, 5, 6] [1, 2, 3]"
proof -
  have h: "length [1, 2, 3 :: nat] = length [4, 5, 6 :: nat]" by simp
  have p: "\<exists>g'. CrossoverPoint 1 [1, 2, 3 :: nat] [4, 5, 6] (\<lambda>_. 4) = Inr ([4, 2, 3], [1, 5, 6], g')"
    by (simp add: CrossoverPoint_def uniform_int_def rng_next_def swap_ranges_def)
  have u: "\<exists>g'. CrossoverUniform [1, 2, 3 :: nat] [4, 5, 6] (\<lambda>_. 0) = ([4, 5, 6], [1, 2, 3], g')"
    by (simp add: CrossoverUniform_def bernoulli_def canonical_def rng_next_def upt_rec)
  from p u crossover_keeps_aligned_pairs [OF h, of 1 "\<lambda>_. 4"]
    crossover_keeps_aligned_pairs [OF h, of 1 "\<lambda>_. 0"] h
  show ?thesis by blast
qed

subsection \<open>Stagnation\<close>

lemma fold_max_fitness:
  "fitness (fold (\<lambda>x best. if fitness best < fitness x then x else best) xs it)
     = Max (insert (fitness it) (fitness ` set xs))"
proof (induction xs arbitrary: it)
  case Nil
  show ?case by simp
next
  case (Cons x xs)
  let ?S = "fitness ` set xs"
  have m: "Max (insert a (insert b ?S)) = max a (Max (insert b ?S))" for a b
    by (rule Max_insert) simp_all
  have ge: "b \<le> Max (insert b ?S)" for b
    by (rule Max_ge) simp_all
  have sw: "Max (insert a (insert b ?S)) = max b (Max (insert a ?S))" for a b
    using m [of b a] by (simp add: insert_commute)
  show ?case
  proof (cases "fitness it < fitness x")
    case True
    have "fitness it \<le> Max (insert (fitness x) ?S)"
      using True ge [of "fitness x"] by linarith
    then have "Max (insert (fitness it) (insert (fitness x) ?S)) = Max (insert (fitness x) ?S)"
      unfolding m by (rule max_absorb2)
    then show ?thesis using True Cons.IH [of x] by simp
  next
    case False
    have "fitness x \<le> Max (insert (fitness it) ?S)"
      using False ge [of "fitness it"] by linarith
    then have "Max (insert (fitness it) (insert (fitness x) ?S)) = Max (insert (fitness it) ?S)"
      unfolding sw by (rule max_absorb2)
    then show ?thesis using False Cons.IH [of it] by simp
  qed
qed

lemma max_element_Some:
  "P \<noteq> [] \<Longrightarrow> \<exists>b. max_element P = Some b \<and> fitness b = best_fitness_of P"
  by (cases P) (simp_all add: max_element_def best_fitness_of_def fold_max_fitness)

lemma Stagnation_call_improve:
  "P \<noteq> [] \<Longrightarrow> best_fitness_of P > best_fitness t \<Longrightarrow>
   TerminationStagnation_call t P
     = (False, t\<lparr>best_fitness := best_fitness_of P, curr_generation := 0\<rparr>)"
  using max_element_Some [of P] by (auto simp: TerminationStagnation_call_def)

lemma Stagnation_call_stall:
  "P \<noteq> [] \<Longrightarrow> \<not> best_fitness_of P > best_fitness t \<Longrightarrow>
   TerminationStagnation_call t P
     = (curr_generation t + 1 \<ge> max_generations t, t\<lparr>curr_generation := curr_generation t + 1\<rparr>)"
  using max_element_Some [of P] by (auto simp: TerminationStagnation_call_def)

lemma Stagnation_call_empty: "TerminationStagnation_call t [] = (True, t)"
  by (simp add: TerminationStagnation_call_def max_element_def)

lemma Stagnation_increasing:
  "\<forall>P \<in> set Ps. P \<noteq> [] \<Longrightarrow> sorted_wrt (<) (map best_fitness_of Ps)
   \<Longrightarrow> \<forall>P \<in> set Ps. best_fitness t < best_fitness_of P
   \<Longrightarrow> Stagnation_verdicts t Ps = replicate (length Ps) False"
proof (induction Ps arbitrary: t)
  case Nil
  show ?case by simp
next
  case (Cons P Ps)
  let ?t = "t\<lparr>best_fitness := best_fitness_of P, curr_generation := 0\<rparr>"
  have c: "TerminationStagnation_call t P = (False, ?t)"
    using Cons.prems by (intro Stagnation_call_improve) simp_all
  have "Stagnation_verdicts ?t Ps = replicate (length Ps) False"
    using Cons.prems by (intro Cons.IH) simp_all
  then show ?case using c by simp
qed

lemma Stagnation_constant:
  "\<forall>P \<in> set Ps. P \<noteq> [] \<and> \<not> best_fitness_of P > best_fitness t
   \<Longrightarrow> Stagnation_verdicts t Ps
       = map (\<lambda>k. curr_generation t + 1 + int k \<ge> max_generations t) [0..<length Ps]"
proof (induction Ps arbitrary: t)
  case Nil
  show ?case by simp
next
  case (Cons P Ps)
  let ?t = "t\<lparr>curr_generation := curr_generation t + 1\<rparr>"
  have c: "TerminationStagnation_call t P = (curr_generation t + 1 \<ge> max_generations t, ?t)"
    using Cons.prems by (intro Stagnation_call_stall) simp_all
  have "Stagnation_verdicts ?t Ps
       = map (\<lambda>k. curr_generation ?t + 1 + int k \<ge> max_generations ?t) [0..<length Ps]"
    using Cons.prems by (intro Cons.IH) simp_all
  then have "Stagnation_verdicts ?t Ps
       = map (\<lambda>k. curr_generation t + 1 + int (Suc k) \<ge> max_generations t) [0..<length Ps]"
    by (simp add: algebra_simps)
  then have "Stagnation_verdicts ?t Ps
       = map (\<lambda>k. curr_generation t + 1 + int k \<ge> max_generations t) [Suc 0..<Suc (length Ps)]"
    by (simp only: map_Suc_upt [symmetric] map_map o_def)
  moreover have "[0..<Suc (length Ps)] = 0 # [Suc 0..<Suc (length Ps)]"
    by (rule upt_conv_Cons) simp
  ultimately show ?case using c by (simp del: upt_Suc)
qed


lemma Stagnation_constant_positive:
  assumes "\<forall>P \<in> set Ps. P \<noteq> [] \<and> best_fitness_of P = c" "0 < c" "1 \<le> m"
  shows "Stagnation_verdicts (TerminationStagnation_init m) Ps
           = map (\<lambda>k. int k \<ge> m) [0..<length Ps]"
proof (cases Ps)
  case Nil
  then show ?thesis by simp
next
  case (Cons P Qs)
  let ?t0 = "TerminationStagnation_init m"
  let ?t1 = "?t0\<lparr>best_fitness := best_fitness_of P, curr_generation := 0\<rparr>"
  have P: "P \<noteq> []" "best_fitness_of P = c" using assms(1) Cons by simp_all
  have c: "TerminationStagnation_call ?t0 P = (False, ?t1)"
    using P assms(2) by (intro Stagnation_call_improve) (simp_all add: TerminationStagnation_init_def)
  have "Stagnation_verdicts ?t1 Qs
      = map (\<lambda>k. curr_generation ?t1 + 1 + int k \<ge> max_generations ?t1) [0..<length Qs]"
    using assms(1) Cons P by (intro Stagnation_constant) simp_all
  then have "Stagnation_verdicts ?t1 Qs = map (\<lambda>k. int (Suc k) \<ge> m) [0..<length Qs]"
    by (simp add: TerminationStagnation_init_def algebra_simps)
  then have "Stagnation_verdicts ?t1 Qs = map (\<lambda>k. int k \<ge> m) [Suc 0..<Suc (length Qs)]"
    by (simp only: map_Suc_upt [symmetric] map_map o_def)
  moreover have "[0..<Suc (length Qs)] = 0 # [Suc 0..<Suc (length Qs)]"
    by (rule upt_conv_Cons) simp
  ultimately show ?thesis using c Cons assms(3) by (simp del: upt_Suc)
qed

lemma Stagnation_constant_zero:
  assumes "\<forall>P \<in> set Ps. P \<noteq> [] \<and> best_fitness_of P = c" "c \<le> 0"
  shows "Stagnation_verdicts (TerminationStagnation_init m) Ps
           = map (\<lambda>k. int k + 1 \<ge> m) [0..<length Ps]"
proof -
  have "Stagnation_verdicts (TerminationStagnation_init m) Ps
      = map (\<lambda>k. curr_generation (TerminationStagnation_init m) + 1 + int k
                   \<ge> max_generations (TerminationStagnation_init m)) [0..<length Ps]"
    using assms by (intro Stagnation_constant) (simp add: TerminationStagnation_init_def)
  then show ?thesis by (simp add: TerminationStagnation_init_def algebra_simps)
qed

text \<open>
  Claim C6, as the code has it. The best fitness so far starts at \<open>0.0\<close>. On a
  non-empty population whose best fitness is strictly greater than the best so far, the
  predicate records it, resets the counter and returns false; on any other non-empty
  population it increments the counter and returns whether the counter has reached
  \<open>max_generations\<close>. Hence it never returns true over a strictly increasing sequence
  of positive best fitnesses; over a constant positive best fitness, with
  \<open>max_generations\<close> at least 1, call number \<open>k\<close> (from 0) returns true exactly when
  \<open>k \<ge> max_generations\<close>, that is once \<open>max_generations\<close> consecutive calls
  without improvement have occurred; over a constant best fitness of 0 the first call
  already counts as one without improvement.
\<close>

theorem TerminationStagnation_behaviour:
  "(Q \<noteq> [] \<and> best_fitness_of Q > best_fitness t \<longrightarrow>
      TerminationStagnation_call t Q
        = (False, t\<lparr>best_fitness := best_fitness_of Q, curr_generation := 0\<rparr>))
   \<and> (Q \<noteq> [] \<and> \<not> best_fitness_of Q > best_fitness t \<longrightarrow>
      TerminationStagnation_call t Q
        = (curr_generation t + 1 \<ge> max_generations t,
           t\<lparr>curr_generation := curr_generation t + 1\<rparr>))
   \<and> ((\<forall>P \<in> set Ps. P \<noteq> [] \<and> 0 < best_fitness_of P)
        \<and> sorted_wrt (<) (map best_fitness_of Ps) \<longrightarrow>
      Stagnation_verdicts (TerminationStagnation_init m) Ps = replicate (length Ps) False)
   \<and> ((\<forall>P \<in> set Ps. P \<noteq> [] \<and> best_fitness_of P = c) \<and> 0 < c \<and> 1 \<le> m \<longrightarrow>
      Stagnation_verdicts (TerminationStagnation_init m) Ps
        = map (\<lambda>k. int k \<ge> m) [0..<length Ps])
   \<and> ((\<forall>P \<in> set Ps. P \<noteq> [] \<and> best_fitness_of P = c) \<and> c \<le> 0 \<longrightarrow>
      Stagnation_verdicts (TerminationStagnation_init m) Ps
        = map (\<lambda>k. int k + 1 \<ge> m) [0..<length Ps])"
proof (intro conjI impI)
  assume "Q \<noteq> [] \<and> best_fitness_of Q > best_fitness t"
  then show "TerminationStagnation_call t Q
        = (False, t\<lparr>best_fitness := best_fitness_of Q, curr_generation := 0\<rparr>)"
    by (simp add: Stagnation_call_improve)
next
  assume "Q \<noteq> [] \<and> \<not> best_fitness_of Q > best_fitness t"
  then show "TerminationStagnation_call t Q
        = (curr_generation t + 1 \<ge> max_generations t,
           t\<lparr>curr_generation := curr_generation t + 1\<rparr>)"
    by (simp add: Stagnation_call_stall)
next
  assume a: "(\<forall>P \<in> set Ps. P \<noteq> [] \<and> 0 < best_fitness_of P)
        \<and> sorted_wrt (<) (map best_fitness_of Ps)"
  show "Stagnation_verdicts (TerminationStagnation_init m) Ps = replicate (length Ps) False"
    using a by (intro Stagnation_increasing) (simp_all add: TerminationStagnation_init_def)
next
  assume "(\<forall>P \<in> set Ps. P \<noteq> [] \<and> best_fitness_of P = c) \<and> 0 < c \<and> 1 \<le> m"
  then show "Stagnation_verdicts (TerminationStagnation_init m) Ps
        = map (\<lambda>k. int k \<ge> m) [0..<length Ps]"
    by (intro Stagnation_constant_positive [where c = c]) simp_all
next
  assume "(\<forall>P \<in> set Ps. P \<noteq> [] \<and> best_fitness_of P = c) \<and> c \<le> 0"
  then show "Stagnation_verdicts (TerminationStagnation_init m) Ps
        = map (\<lambda>k. int k + 1 \<ge> m) [0..<length Ps]"
    by (intro Stagnation_constant_zero [where c = c]) simp_all
qed

text \<open>
  The claim as stated fails when the sequence starts at fitness 0: the best fitnesses
  0, 1, 2 increase strictly, and with \<open>max_generations = 1\<close> the first call returns
  true.
\<close>

theorem TerminationStagnation_counterexample:
  "sorted_wrt (<) (map best_fitness_of
       [[\<lparr>data = (), fitness = 0\<rparr>], [\<lparr>data = (), fitness = 1\<rparr>], [\<lparr>data = (), fitness = 2\<rparr>]])
   \<and> Stagnation_verdicts (TerminationStagnation_init 1)
       [[\<lparr>data = (), fitness = 0\<rparr>], [\<lparr>data = (), fitness = 1\<rparr>], [\<lparr>data = (), fitness = 2\<rparr>]]
     = [True, False, False]"
  by (simp add: best_fitness_of_def TerminationStagnation_init_def
      TerminationStagnation_call_def max_element_def)

theorem TerminationStagnation_behaviour_witness:
  "list_all (\<lambda>P. P \<noteq> [] \<and> 0 < best_fitness_of P)
       [[\<lparr>data = (), fitness = 1\<rparr>], [\<lparr>data = (), fitness = 2\<rparr>]]
   \<and> sorted_wrt (<) (map best_fitness_of
          [[\<lparr>data = (), fitness = 1\<rparr>], [\<lparr>data = (), fitness = 2\<rparr>]])
   \<and> Stagnation_verdicts (TerminationStagnation_init 1)
        [[\<lparr>data = (), fitness = 1\<rparr>], [\<lparr>data = (), fitness = 2\<rparr>]] = [False, False]
   \<and> list_all (\<lambda>P. P \<noteq> [] \<and> best_fitness_of P = 3)
        [[\<lparr>data = (), fitness = 3\<rparr>], [\<lparr>data = (), fitness = 3\<rparr>],
         [\<lparr>data = (), fitness = 3\<rparr>], [\<lparr>data = (), fitness = 3\<rparr>]]
   \<and> (0::real) < 3 \<and> (1::int) \<le> 2
   \<and> Stagnation_verdicts (TerminationStagnation_init 2)
        [[\<lparr>data = (), fitness = 3\<rparr>], [\<lparr>data = (), fitness = 3\<rparr>],
         [\<lparr>data = (), fitness = 3\<rparr>], [\<lparr>data = (), fitness = 3\<rparr>]]
       = [False, False, True, True]"
proof -
  have h1: "(\<forall>P \<in> set [[\<lparr>data = (), fitness = 1\<rparr>], [\<lparr>data = (), fitness = 2\<rparr>]].
        P \<noteq> [] \<and> 0 < best_fitness_of P)
    \<and> sorted_wrt (<) (map best_fitness_of
          [[\<lparr>data = (), fitness = 1\<rparr>], [\<lparr>data = (), fitness = 2\<rparr>]])"
    by (simp add: best_fitness_of_def)
  have h2: "(\<forall>P \<in> set [[\<lparr>data = (), fitness = 3\<rparr>], [\<lparr>data = (), fitness = 3\<rparr>],
                      [\<lparr>data = (), fitness = 3\<rparr>], [\<lparr>data = (), fitness = 3\<rparr>]].
          P \<noteq> [] \<and> best_fitness_of P = 3) \<and> (0::real) < 3 \<and> (1::int) \<le> 2"
    by (simp add: best_fitness_of_def)
  have u: "[0..<4] = [0, 1, 2, 3::nat]" by (simp add: upt_rec)
  have r1: "Stagnation_verdicts (TerminationStagnation_init 1)
        [[\<lparr>data = (), fitness = 1\<rparr>], [\<lparr>data = (), fitness = 2\<rparr>]] = [False, False]"
    using TerminationStagnation_behaviour
      [where Ps = "[[\<lparr>data = (), fitness = 1\<rparr>], [\<lparr>data = (), fitness = 2\<rparr>]]"
        and m = 1 and Q = "[]" and c = 0 and t = "TerminationStagnation_init 1",
        THEN conjunct2, THEN conjunct2, THEN conjunct1, THEN mp, OF h1]
    by simp
  have r2: "Stagnation_verdicts (TerminationStagnation_init 2)
        [[\<lparr>data = (), fitness = 3\<rparr>], [\<lparr>data = (), fitness = 3\<rparr>],
         [\<lparr>data = (), fitness = 3\<rparr>], [\<lparr>data = (), fitness = 3\<rparr>]]
       = [False, False, True, True]"
    using TerminationStagnation_behaviour
      [where Ps = "[[\<lparr>data = (), fitness = 3\<rparr>], [\<lparr>data = (), fitness = 3\<rparr>],
                      [\<lparr>data = (), fitness = 3\<rparr>], [\<lparr>data = (), fitness = 3\<rparr>]]"
        and m = 2 and c = 3 and Q = "[]" and t = "TerminationStagnation_init 2",
        THEN conjunct2, THEN conjunct2, THEN conjunct2, THEN conjunct1, THEN mp, OF h2]
    by (simp add: u)
  from h1 r1 h2 r2 show ?thesis by (simp add: list_all_iff)
qed

subsection \<open>Roulette-wheel selection and stochastic universal sampling at zero fitness\<close>














subsection \<open>Migration\<close>

lemma shuffle_fold:
  "\<forall>i \<in> set js. i < length ys \<Longrightarrow>
   fold (\<lambda>i (ys, h). let (j, h') = uniform_int 0 i h in (swap_at ys i j, h')) js (ys, h)
     = (zs, h')
   \<Longrightarrow> mset zs = mset ys \<and> length zs = length ys"
proof (induction js arbitrary: ys h)
  case Nil
  then show ?case by simp
next
  case (Cons i js)
  obtain j h1 where u: "uniform_int 0 i h = (j, h1)" by (cases "uniform_int 0 i h")
  have "j \<le> i" using uniform_int_le [of 0 i h] u by simp
  then have j: "j < length ys" and i: "i < length ys" using Cons.prems(1) by simp_all
  have m: "mset (swap_at ys i j) = mset ys"
    unfolding swap_at_def using j i by (rule mset_swap)
  have l: "length (swap_at ys i j) = length ys" by (simp add: swap_at_def)
  have "mset zs = mset (swap_at ys i j) \<and> length zs = length (swap_at ys i j)"
  proof (rule Cons.IH)
    show "\<forall>k \<in> set js. k < length (swap_at ys i j)" using Cons.prems(1) l by simp
    show "fold (\<lambda>i (ys, h). let (j, h') = uniform_int 0 i h in (swap_at ys i j, h')) js
            (swap_at ys i j, h1) = (zs, h')"
      using Cons.prems(2) u by simp
  qed
  then show ?case using m l by simp
qed

lemma shuffle_mset:
  "shuffle xs g = (ys, h) \<Longrightarrow> mset ys = mset xs \<and> length ys = length xs"
  unfolding shuffle_def by (rule shuffle_fold [where js = "[1..<length xs]"]) simp_all

lemma sum_list_map_update:
  fixes f :: "'b \<Rightarrow> 'c multiset"
  shows "k < length xs \<Longrightarrow>
    sum_list (map f (xs[k := y])) + f (xs ! k) = sum_list (map f xs) + f y"
proof (induction xs arbitrary: k)
  case Nil
  then show ?case by simp
next
  case (Cons x xs)
  show ?case
  proof (cases k)
    case 0
    then show ?thesis by (simp add: ac_simps)
  next
    case (Suc m)
    then have "m < length xs" using Cons.prems by simp
    from Cons.IH [OF this] show ?thesis using Suc by (simp add: ac_simps)
  qed
qed

lemma individuals_of_update:
  "k < length islands \<Longrightarrow>
   individuals_of (islands[k := isle]) + mset (pop (islands ! k))
     = individuals_of islands + mset (pop isle)"
  unfolding individuals_of_def by (rule sum_list_map_update)

lemma individuals_of_update_same:
  "k < length islands \<Longrightarrow> mset (pop isle) = mset (pop (islands ! k)) \<Longrightarrow>
   individuals_of (islands[k := isle]) = individuals_of islands"
  using individuals_of_update [of k islands isle] by simp

lemma individuals_of_push_back:
  "k < length islands \<Longrightarrow>
   individuals_of (push_back k it islands) = individuals_of islands + {#it#}"
  using individuals_of_update [of k islands "(islands ! k)\<lparr>pop := pop (islands ! k) @ [it]\<rparr>"]
  by (simp add: push_back_def)

lemma individuals_of_append:
  "k < length islands \<Longrightarrow>
   individuals_of (islands[k := (islands ! k)\<lparr>pop := pop (islands ! k) @ xs\<rparr>])
     = individuals_of islands + mset xs"
  using individuals_of_update [of k islands "(islands ! k)\<lparr>pop := pop (islands ! k) @ xs\<rparr>"]
  by simp

lemma individuals_of_erase_last:
  assumes "k < length islands"
  shows "individuals_of (erase_last k cnt islands)
           + mset (drop (length (pop (islands ! k)) - cnt) (pop (islands ! k)))
         = individuals_of islands"
proof -
  let ?p = "pop (islands ! k)"
  let ?n = "length ?p - cnt"
  have "individuals_of (erase_last k cnt islands) + mset ?p
        = individuals_of islands + mset (take ?n ?p)"
    using individuals_of_update [OF assms, of "(islands ! k)\<lparr>pop := take ?n ?p\<rparr>"]
    by (simp add: erase_last_def)
  moreover have "mset ?p = mset (take ?n ?p) + mset (drop ?n ?p)"
    by (metis append_take_drop_id mset_append)
  ultimately have "(individuals_of (erase_last k cnt islands) + mset (drop ?n ?p)) + mset (take ?n ?p)
      = individuals_of islands + mset (take ?n ?p)"
    by (simp add: ac_simps)
  then show ?thesis by (rule add_right_imp_eq)
qed


lemma push_back_facts:
  assumes "k < length islands"
  shows "length (push_back k it islands) = length islands"
    and "\<And>j. j < length islands \<Longrightarrow> j \<noteq> k \<Longrightarrow> push_back k it islands ! j = islands ! j"
    and "pop (push_back k it islands ! k) = pop (islands ! k) @ [it]"
  using assms by (simp_all add: push_back_def)

lemma MigrationRandom_send_facts:
  "1 < length islands \<Longrightarrow> i < length islands \<Longrightarrow>
   MigrationRandom_send i migrants islands g = (islands', g') \<Longrightarrow>
     length islands' = length islands
     \<and> individuals_of islands' = individuals_of islands + mset migrants
     \<and> pop (islands' ! i) = pop (islands ! i)
     \<and> (\<forall>j < length islands. \<exists>added. pop (islands' ! j) = pop (islands ! j) @ added)"
proof (induction migrants arbitrary: islands g)
  case Nil
  then show ?case by simp
next
  case (Cons it rest)
  let ?n = "length islands"
  obtain index h where u: "uniform_int 1 (?n - 1) g = (index, h)"
    by (cases "uniform_int 1 (?n - 1) g")
  define k where "k = (if index = i then 0 else index)"
  have "1 \<le> index" using uniform_int_ge [of 1 "?n - 1" g] u by simp
  moreover have "index \<le> ?n - 1"
    using uniform_int_le [of 1 "?n - 1" g] u Cons.prems(1) by simp
  ultimately have k: "k < ?n" "k \<noteq> i"
    using Cons.prems(1) by (auto simp: k_def)
  let ?a = "push_back k it islands"
  have len: "length ?a = ?n" using k(1) by (rule push_back_facts(1))
  have r: "MigrationRandom_send i rest ?a h = (islands', g')"
    using Cons.prems(3) u by (simp add: k_def)
  have ih: "length islands' = length ?a
     \<and> individuals_of islands' = individuals_of ?a + mset rest
     \<and> pop (islands' ! i) = pop (?a ! i)
     \<and> (\<forall>j < length ?a. \<exists>added. pop (islands' ! j) = pop (?a ! j) @ added)"
    using Cons.prems(1,2) len r by (intro Cons.IH) simp_all
  have s: "pop (?a ! i) = pop (islands ! i)"
    using push_back_facts(2) [OF k(1) Cons.prems(2), of it] k(2) by simp
  have g: "\<exists>added. pop (islands' ! j) = pop (islands ! j) @ added" if j: "j < ?n" for j
  proof -
    from ih j len obtain added where a: "pop (islands' ! j) = pop (?a ! j) @ added" by auto
    show ?thesis
    proof (cases "j = k")
      case True
      then show ?thesis using a push_back_facts(3) [OF k(1), of it] by simp
    next
      case False
      then show ?thesis using a push_back_facts(2) [OF k(1) j, of it] by simp
    qed
  qed
  show ?case
    using ih len s g individuals_of_push_back [OF k(1), of it] by (simp add: ac_simps)
qed

lemma MigrationRandom_island_moved:
  assumes "1 < length islands" "i < length islands"
    and "MigrationRandom_island sz i (islands, g) = Inr (islands', g')"
  shows "moved_out i islands islands'"
proof -
  obtain src g1 where sh: "shuffle (pop (islands ! i)) g = (src, g1)"
    by (cases "shuffle (pop (islands ! i)) g")
  have ms: "mset src = mset (pop (islands ! i))" using shuffle_mset [OF sh] by simp
  let ?i1 = "islands[i := (islands ! i)\<lparr>pop := src\<rparr>]"
  from assms(3) sh obtain cnt where c: "SelectionSize_call sz (length src) = Inr cnt"
    by (auto simp: MigrationRandom_island_def split: sum.splits)
  have cnt: "cnt \<le> length src" using c by (rule SelectionSize_call_le)
  let ?mig = "drop (length src - cnt) src"
  obtain i2 g2 where se: "MigrationRandom_send i ?mig ?i1 g1 = (i2, g2)"
    by (cases "MigrationRandom_send i ?mig ?i1 g1")
  have res: "islands' = erase_last i cnt i2"
    using assms(3) sh c se by (simp add: MigrationRandom_island_def)
  have l1: "length ?i1 = length islands" by simp
  have f: "length i2 = length ?i1"
    "individuals_of i2 = individuals_of ?i1 + mset ?mig"
    "pop (i2 ! i) = pop (?i1 ! i)"
    "\<forall>j < length ?i1. \<exists>added. pop (i2 ! j) = pop (?i1 ! j) @ added"
    using MigrationRandom_send_facts [of ?i1 i ?mig g1 i2 g2] assms(1,2) se by simp_all
  have p2: "pop (i2 ! i) = src" using f(3) assms(2) by simp
  have t1: "individuals_of ?i1 = individuals_of islands"
    using assms(2) ms by (intro individuals_of_update_same) simp_all
  have "individuals_of (erase_last i cnt i2) + mset ?mig = individuals_of i2"
    using individuals_of_erase_last [of i i2 cnt] f(1) assms(2) p2 by simp
  then have tot: "individuals_of islands' = individuals_of islands"
    using f(2) t1 res by simp
  have own: "pop (islands' ! i) = take (length src - cnt) src"
    using res p2 f(1) assms(2) by (simp add: erase_last_def)
  have oth: "\<exists>added. pop (islands' ! j) = pop (islands ! j) @ added"
    if j: "j < length islands" "j \<noteq> i" for j
  proof -
    from f(4) j(1) obtain added where "pop (i2 ! j) = pop (?i1 ! j) @ added" by auto
    then have "pop (i2 ! j) = pop (islands ! j) @ added" using j by simp
    moreover have "islands' ! j = i2 ! j" using res j by (simp add: erase_last_def)
    ultimately show ?thesis by simp
  qed
  have "length islands' = length islands" using res f(1) by (simp add: erase_last_def)
  then show ?thesis
    unfolding moved_out_def using tot ms cnt own oth by blast
qed

lemma MigrationRing_island_moved:
  assumes "1 < length islands" "i < length islands"
    and "MigrationRing_island sz i (islands, g) = Inr (islands', g')"
  shows "moved_out i islands islands'"
proof -
  obtain src g1 where sh: "shuffle (pop (islands ! i)) g = (src, g1)"
    by (cases "shuffle (pop (islands ! i)) g")
  have ms: "mset src = mset (pop (islands ! i))" using shuffle_mset [OF sh] by simp
  let ?i1 = "islands[i := (islands ! i)\<lparr>pop := src\<rparr>]"
  define k where "k = (if i + 1 \<ge> length islands then 0 else i + 1)"
  have k: "k < length islands" "k \<noteq> i" using assms(1,2) by (auto simp: k_def)
  from assms(3) sh obtain cnt where c: "SelectionSize_call sz (length src) = Inr cnt"
    by (auto simp: MigrationRing_island_def Let_def split: sum.splits)
  have cnt: "cnt \<le> length src" using c by (rule SelectionSize_call_le)
  let ?mig = "drop (length src - cnt) src"
  let ?i2 = "?i1[k := (?i1 ! k)\<lparr>pop := pop (?i1 ! k) @ ?mig\<rparr>]"
  have res: "islands' = erase_last i cnt ?i2"
    using assms(3) sh c by (simp add: MigrationRing_island_def Let_def k_def)
  have t1: "individuals_of ?i1 = individuals_of islands"
    using assms(2) ms by (intro individuals_of_update_same) simp_all
  have t2: "individuals_of ?i2 = individuals_of ?i1 + mset ?mig"
    using k(1) by (intro individuals_of_append) simp
  have p2: "pop (?i2 ! i) = src" using k assms(2) by simp
  have "individuals_of (erase_last i cnt ?i2) + mset ?mig = individuals_of ?i2"
    using individuals_of_erase_last [of i ?i2 cnt] assms(2) p2 by simp
  then have tot: "individuals_of islands' = individuals_of islands"
    using t1 t2 res by simp
  have own: "pop (islands' ! i) = take (length src - cnt) src"
    using res p2 assms(2) by (simp add: erase_last_def)
  have oth: "\<exists>added. pop (islands' ! j) = pop (islands ! j) @ added"
    if "j < length islands" "j \<noteq> i" for j
  proof (cases "j = k")
    case True
    then show ?thesis using that k res by (simp add: erase_last_def)
  next
    case False
    then show ?thesis using that res by (simp add: erase_last_def)
  qed
  have "length islands' = length islands" using res by (simp add: erase_last_def)
  then show ?thesis
    unfolding moved_out_def using tot ms cnt own oth by blast
qed


lemma for_islands_preserves:
  assumes step: "\<And>i islands g islands' g'. i < n \<Longrightarrow> length islands = n \<Longrightarrow>
      body i (islands, g) = Inr (islands', g') \<Longrightarrow> moved_out i islands islands'"
  shows "\<forall>i \<in> set js. i < n \<Longrightarrow> length islands = n \<Longrightarrow>
     for_islands body js (islands, g) = Inr (islands', g') \<Longrightarrow>
     length islands' = n \<and> individuals_of islands' = individuals_of islands"
proof (induction js arbitrary: islands g)
  case Nil
  then show ?case by simp
next
  case (Cons i js)
  from Cons.prems(3) obtain mid h where
    b: "body i (islands, g) = Inr (mid, h)"
    and r: "for_islands body js (mid, h) = Inr (islands', g')"
    by (auto split: sum.splits)
  have "moved_out i islands mid"
    using Cons.prems(1,2) b by (intro step) simp_all
  then have m: "length mid = n" "individuals_of mid = individuals_of islands"
    using Cons.prems(2) by (simp_all add: moved_out_def)
  have "length islands' = n \<and> individuals_of islands' = individuals_of mid"
    using Cons.prems(1) m(1) r by (intro Cons.IH) simp_all
  then show ?case using m(2) by simp
qed

lemma for_islands_total:
  assumes "\<And>i s. \<exists>s'. body i s = Inr s'"
  shows "\<exists>s'. for_islands body js s = Inr s'"
proof (induction js arbitrary: s)
  case Nil
  show ?case by simp
next
  case (Cons i js)
  from assms [of i s] obtain mid where "body i s = Inr mid" by blast
  then show ?case using Cons.IH [of mid] by simp
qed

lemma SelectionSize_call_total:
  "count_sz sz > 0 \<or> (0 \<le> percentage sz \<and> percentage sz \<le> 1)
     \<Longrightarrow> \<exists>k. SelectionSize_call sz n = Inr k"
  by (auto simp: SelectionSize_call_def)

lemma MigrationRandom_island_total:
  assumes "count_sz sz > 0 \<or> (0 \<le> percentage sz \<and> percentage sz \<le> 1)"
  shows "\<exists>s'. MigrationRandom_island sz i s = Inr s'"
proof -
  obtain islands g where s: "s = (islands, g)" by (cases s)
  obtain src g1 where sh: "shuffle (pop (islands ! i)) g = (src, g1)"
    by (cases "shuffle (pop (islands ! i)) g")
  from SelectionSize_call_total [OF assms, of "length src"] obtain k where
    "SelectionSize_call sz (length src) = Inr k" by blast
  then show ?thesis using s sh
    by (simp add: MigrationRandom_island_def split: prod.splits)
qed

lemma MigrationRing_island_total:
  assumes "count_sz sz > 0 \<or> (0 \<le> percentage sz \<and> percentage sz \<le> 1)"
  shows "\<exists>s'. MigrationRing_island sz i s = Inr s'"
proof -
  obtain islands g where s: "s = (islands, g)" by (cases s)
  obtain src g1 where sh: "shuffle (pop (islands ! i)) g = (src, g1)"
    by (cases "shuffle (pop (islands ! i)) g")
  from SelectionSize_call_total [OF assms, of "length src"] obtain k where
    "SelectionSize_call sz (length src) = Inr k" by blast
  then show ?thesis using s sh
    by (simp add: MigrationRing_island_def Let_def)
qed

text \<open>
  Claim C9. On at least two islands, a call of the random or of the ring migration
  operator that returns leaves the number of islands and the multiset of all
  individuals over all islands unchanged. In each island's turn the migrants are the
  end of the shuffled population: they are erased from that island, every other island
  keeps its individuals and only receives at its end, and the total multiset is kept,
  so each migrant is in exactly one other island. With a selection size that passes its
  assertion (a positive count, or a percentage in \<open>[0, 1]\<close>) both operators return.
\<close>

theorem migration_preserves_individuals:
  assumes "1 < length islands"
  shows "(\<forall>islands' g'. MigrationRandom sz islands g = Inr (islands', g') \<longrightarrow>
            length islands' = length islands
            \<and> individuals_of islands' = individuals_of islands)
       \<and> (\<forall>islands' g'. MigrationRing sz islands g = Inr (islands', g') \<longrightarrow>
            length islands' = length islands
            \<and> individuals_of islands' = individuals_of islands)
       \<and> (\<forall>i islands' g'. i < length islands
            \<and> MigrationRandom_island sz i (islands, g) = Inr (islands', g')
            \<longrightarrow> moved_out i islands islands')
       \<and> (\<forall>i islands' g'. i < length islands
            \<and> MigrationRing_island sz i (islands, g) = Inr (islands', g')
            \<longrightarrow> moved_out i islands islands')
       \<and> (count_sz sz > 0 \<or> (0 \<le> percentage sz \<and> percentage sz \<le> 1) \<longrightarrow>
            (\<exists>islands' g'. MigrationRandom sz islands g = Inr (islands', g'))
            \<and> (\<exists>islands' g'. MigrationRing sz islands g = Inr (islands', g')))"
proof (intro conjI allI impI)
  fix islands' g'
  assume "MigrationRandom sz islands g = Inr (islands', g')"
  then have r: "for_islands (MigrationRandom_island sz) [0..<length islands] (islands, g)
      = Inr (islands', g')"
    using assms by (simp add: MigrationRandom_def)
  have "length islands' = length islands \<and> individuals_of islands' = individuals_of islands"
  proof (rule for_islands_preserves [where body = "MigrationRandom_island sz"
        and js = "[0..<length islands]" and g = g and g' = g'])
    show "\<forall>i \<in> set [0..<length islands]. i < length islands" by simp
    show "length islands = length islands" by simp
    show "for_islands (MigrationRandom_island sz) [0..<length islands] (islands, g)
      = Inr (islands', g')" by (rule r)
  next
    fix i and isls :: "('a, 'b) Island list" and h isls' h'
    assume "i < length islands" "length isls = length islands"
      "MigrationRandom_island sz i (isls, h) = Inr (isls', h')"
    then show "moved_out i isls isls'"
      using assms by (intro MigrationRandom_island_moved [where g = h and g' = h' and sz = sz]) simp_all
  qed
  then show "length islands' = length islands"
    and "individuals_of islands' = individuals_of islands" by simp_all
next
  fix islands' g'
  assume "MigrationRing sz islands g = Inr (islands', g')"
  then have r: "for_islands (MigrationRing_island sz) [0..<length islands] (islands, g)
      = Inr (islands', g')"
    using assms by (simp add: MigrationRing_def)
  have "length islands' = length islands \<and> individuals_of islands' = individuals_of islands"
  proof (rule for_islands_preserves [where body = "MigrationRing_island sz"
        and js = "[0..<length islands]" and g = g and g' = g'])
    show "\<forall>i \<in> set [0..<length islands]. i < length islands" by simp
    show "length islands = length islands" by simp
    show "for_islands (MigrationRing_island sz) [0..<length islands] (islands, g)
      = Inr (islands', g')" by (rule r)
  next
    fix i and isls :: "('a, 'b) Island list" and h isls' h'
    assume "i < length islands" "length isls = length islands"
      "MigrationRing_island sz i (isls, h) = Inr (isls', h')"
    then show "moved_out i isls isls'"
      using assms by (intro MigrationRing_island_moved [where g = h and g' = h' and sz = sz]) simp_all
  qed
  then show "length islands' = length islands"
    and "individuals_of islands' = individuals_of islands" by simp_all
next
  fix i islands' g'
  assume "i < length islands \<and> MigrationRandom_island sz i (islands, g) = Inr (islands', g')"
  then show "moved_out i islands islands'"
    using assms by (intro MigrationRandom_island_moved [where g = g and g' = g' and sz = sz]) simp_all
next
  fix i islands' g'
  assume "i < length islands \<and> MigrationRing_island sz i (islands, g) = Inr (islands', g')"
  then show "moved_out i islands islands'"
    using assms by (intro MigrationRing_island_moved [where g = g and g' = g' and sz = sz]) simp_all
next
  assume v: "count_sz sz > 0 \<or> (0 \<le> percentage sz \<and> percentage sz \<le> 1)"
  have "\<exists>s'. for_islands (MigrationRandom_island sz) [0..<length islands] (islands, g) = Inr s'"
    by (rule for_islands_total) (rule MigrationRandom_island_total [OF v])
  then show "\<exists>islands' g'. MigrationRandom sz islands g = Inr (islands', g')"
    using assms by (auto simp: MigrationRandom_def)
next
  assume v: "count_sz sz > 0 \<or> (0 \<le> percentage sz \<and> percentage sz \<le> 1)"
  have "\<exists>s'. for_islands (MigrationRing_island sz) [0..<length islands] (islands, g) = Inr s'"
    by (rule for_islands_total) (rule MigrationRing_island_total [OF v])
  then show "\<exists>islands' g'. MigrationRing sz islands g = Inr (islands', g')"
    using assms by (auto simp: MigrationRing_def)
qed


theorem migration_preserves_individuals_witness:
  "1 < length Islands_example
   \<and> (\<exists>g'. MigrationRandom (SelectionSize_count 1) Islands_example (\<lambda>_. 0)
              = Inr (Islands_example_after, g'))
   \<and> (\<exists>g'. MigrationRing (SelectionSize_count 1) Islands_example (\<lambda>_. 0)
              = Inr (Islands_example_after, g'))
   \<and> length Islands_example_after = length Islands_example
   \<and> individuals_of Islands_example_after = individuals_of Islands_example"
proof -
  have n: "1 < length Islands_example" by (simp add: Islands_example_def)
  have u: "[0..<2] = [0, 1 :: nat]" by (simp add: upt_rec)
  have a: "\<exists>g'. MigrationRandom (SelectionSize_count 1) Islands_example (\<lambda>_. 0)
              = Inr (Islands_example_after, g')"
    by (simp add: MigrationRandom_def MigrationRandom_island_def Islands_example_def
        Islands_example_after_def shuffle_def uniform_int_def rng_next_def swap_at_def
        SelectionSize_call_def SelectionSize_count_def erase_last_def push_back_def u)
  have b: "\<exists>g'. MigrationRing (SelectionSize_count 1) Islands_example (\<lambda>_. 0)
              = Inr (Islands_example_after, g')"
    by (simp add: MigrationRing_def MigrationRing_island_def Islands_example_def
        Islands_example_after_def shuffle_def uniform_int_def rng_next_def swap_at_def
        SelectionSize_call_def SelectionSize_count_def erase_last_def u)
  from a obtain g' where
    "MigrationRandom (SelectionSize_count 1) Islands_example (\<lambda>_. 0)
       = Inr (Islands_example_after, g')" by blast
  with migration_preserves_individuals [OF n, of "SelectionSize_count 1" "\<lambda>_. 0"]
  have "length Islands_example_after = length Islands_example
      \<and> individuals_of Islands_example_after = individuals_of Islands_example"
    by blast
  with n a b show ?thesis by blast
qed

subsection \<open>Partially-matched crossover\<close>

lemma perm_upt_facts:
  assumes "mset v = mset [0..<n]"
  shows "length v = n" "distinct v" "set v = {0..<n}"
proof -
  show "length v = n" using assms by (metis length_upt mset_eq_length minus_nat.diff_0)
  show "distinct v" using assms by (metis distinct_upt mset_eq_imp_distinct_iff)
  show "set v = {0..<n}" using assms by (metis mset_eq_setD set_upt)
qed

lemma pmx_inverse_fold:
  assumes "distinct v" "length v = n" "set v = {0..<n}"
  shows "k \<le> n \<Longrightarrow>
    length (fold (\<lambda>i p. p[v ! i := i]) [0..<k] (replicate n 0)) = n
    \<and> (\<forall>i < k. fold (\<lambda>i p. p[v ! i := i]) [0..<k] (replicate n 0) ! (v ! i) = i)"
proof (induction k)
  case 0
  show ?case by simp
next
  case (Suc k)
  let ?p = "fold (\<lambda>i p. p[v ! i := i]) [0..<k] (replicate n 0)"
  have ih: "length ?p = n" "\<forall>i < k. ?p ! (v ! i) = i" using Suc by simp_all
  have vk: "v ! k < n" using assms(2,3) Suc.prems by (metis Suc_le_lessD atLeastLessThan_iff nth_mem)
  have "?p[v ! k := k] ! (v ! i) = i" if "i < Suc k" for i
  proof (cases "i = k")
    case True
    then show ?thesis using vk ih(1) by simp
  next
    case False
    then have ik: "i < k" using that by simp
    then have "v ! i \<noteq> v ! k"
      using assms(1,2) Suc.prems by (simp add: nth_eq_iff_index_eq)
    then show ?thesis using ih(2) ik by simp
  qed
  then show ?case using ih(1) by simp
qed

lemma pmx_inverse_correct:
  assumes "mset v = mset [0..<n]"
  shows "inverse_maps n v (pmx_inverse n v)"
proof -
  note f = perm_upt_facts [OF assms]
  let ?p = "pmx_inverse n v"
  have l: "length ?p = n" and a: "\<forall>i < n. ?p ! (v ! i) = i"
    using pmx_inverse_fold [OF f(2) f(1) f(3), of n] by (simp_all add: pmx_inverse_def)
  have r: "v ! i < n" if "i < n" for i
    using f(1,3) that by (metis atLeastLessThan_iff nth_mem)
  have b: "?p ! t < n \<and> v ! (?p ! t) = t" if "t < n" for t
  proof -
    have "t \<in> set v" using f(3) that by simp
    then obtain i where "i < n" "v ! i = t" using f(1) by (auto simp: in_set_conv_nth)
    then show ?thesis using a by auto
  qed
  show ?thesis unfolding inverse_maps_def using f(1) l a r b by blast
qed

lemma inverse_maps_exchange:
  assumes "inverse_maps n v p" "i < n" "t < n"
  shows "inverse_maps n (v[i := t, p ! t := v ! i]) (p[v ! i := p ! t, t := p ! (v ! i)])"
proof -
  define a where "a = v ! i"
  define j where "j = p ! t"
  from assms have lv: "length v = n" and lp: "length p = n"
    and pv: "\<And>k. k < n \<Longrightarrow> v ! k < n \<and> p ! (v ! k) = k"
    and vp: "\<And>s. s < n \<Longrightarrow> p ! s < n \<and> v ! (p ! s) = s"
    by (simp_all add: inverse_maps_def)
  have a: "a < n" "p ! a = i" using pv [OF assms(2)] by (simp_all add: a_def)
  have j: "j < n" "v ! j = t" using vp [OF assms(3)] by (simp_all add: j_def)
  have ij: "i = j \<longleftrightarrow> a = t" using a j a_def j_def by auto
  let ?v = "v[i := t, j := a]"
  let ?p = "p[a := j, t := i]"
  have 1: "?v ! k < n \<and> ?p ! (?v ! k) = k" if k: "k < n" for k
  proof -
    consider "k = j" | "k = i" "k \<noteq> j" | "k \<noteq> i" "k \<noteq> j" by blast
    then show ?thesis
    proof cases
      case 1
      then show ?thesis using a j lv lp ij by (auto simp: nth_list_update)
    next
      case 2
      then show ?thesis using a j lv lp assms(2,3) by (auto simp: nth_list_update)
    next
      case 3
      have "v ! k \<noteq> a" using 3 pv [OF k] a by auto
      moreover have "v ! k \<noteq> t" using 3 pv [OF k] j j_def by auto
      ultimately show ?thesis using 3 pv [OF k] by (auto simp: nth_list_update)
    qed
  qed
  have 2: "?p ! s < n \<and> ?v ! (?p ! s) = s" if s: "s < n" for s
  proof -
    consider "s = t" | "s = a" "s \<noteq> t" | "s \<noteq> a" "s \<noteq> t" by blast
    then show ?thesis
    proof cases
      case 1
      then show ?thesis using a j lv lp ij assms(2,3) by (auto simp: nth_list_update)
    next
      case 2
      then show ?thesis using a j lv lp by (auto simp: nth_list_update)
    next
      case 3
      have "p ! s \<noteq> i" using 3 vp [OF s] a_def by auto
      moreover have "p ! s \<noteq> j" using 3 vp [OF s] j by auto
      ultimately show ?thesis using 3 vp [OF s] by (auto simp: nth_list_update)
    qed
  qed
  have "inverse_maps n ?v ?p"
    unfolding inverse_maps_def using lv lp 1 2 by simp
  then show ?thesis using a by (simp add: a_def j_def)
qed

lemma list_update_exchange:
  "p[a := p ! b, b := p ! a] = p[b := p ! a, a := p ! b]"
  by (cases "a = b") (simp_all add: list_update_swap)

lemma pmx_step_inverse_maps:
  assumes "inverse_maps n v0 p0" "inverse_maps n v1 p1" "i < n"
    and "pmx_step i (v0, v1, p0, p1) = (v0', v1', p0', p1')"
  shows "inverse_maps n v0' p0' \<and> inverse_maps n v1' p1'"
proof -
  have t0: "v0 ! i < n" and t1: "v1 ! i < n"
    using assms(1,2,3) by (simp_all add: inverse_maps_def)
  have e: "v0' = v0[i := v1 ! i, p0 ! (v1 ! i) := v0 ! i]"
    "p0' = p0[v0 ! i := p0 ! (v1 ! i), v1 ! i := p0 ! (v0 ! i)]"
    "v1' = v1[i := v0 ! i, p1 ! (v0 ! i) := v1 ! i]"
    "p1' = p1[v0 ! i := p1 ! (v1 ! i), v1 ! i := p1 ! (v0 ! i)]"
    using assms(4) by (simp_all add: pmx_step_def Let_def)
  have "inverse_maps n v0' p0'"
    unfolding e using assms(1,3) t1 by (rule inverse_maps_exchange)
  moreover have "inverse_maps n v1' (p1[v1 ! i := p1 ! (v0 ! i), v0 ! i := p1 ! (v1 ! i)])"
    unfolding e using assms(2,3) t0 by (rule inverse_maps_exchange)
  then have "inverse_maps n v1' p1'"
    unfolding e by (simp add: list_update_exchange [of p1 "v0 ! i" "v1 ! i"])
  ultimately show ?thesis by simp
qed


lemma pmx_fold_inverse_maps:
  "\<forall>i \<in> set js. i < n \<Longrightarrow> inverse_maps n v0 p0 \<Longrightarrow> inverse_maps n v1 p1 \<Longrightarrow>
   fold pmx_step js (v0, v1, p0, p1) = (v0', v1', p0', p1') \<Longrightarrow>
   inverse_maps n v0' p0' \<and> inverse_maps n v1' p1'"
proof (induction js arbitrary: v0 v1 p0 p1)
  case Nil
  then show ?case by simp
next
  case (Cons i js)
  obtain a b c d where s: "pmx_step i (v0, v1, p0, p1) = (a, b, c, d)"
    by (cases "pmx_step i (v0, v1, p0, p1)")
  have "inverse_maps n a c \<and> inverse_maps n b d"
    using Cons.prems(2,3) _ s by (rule pmx_step_inverse_maps) (use Cons.prems(1) in simp)
  moreover have "fold pmx_step js (a, b, c, d) = (v0', v1', p0', p1')"
    using Cons.prems(4) s by simp
  ultimately show ?case using Cons.IH [of a c b d] Cons.prems(1) by simp
qed

lemma inverse_maps_perm:
  assumes "inverse_maps n v p"
  shows "mset v = mset [0..<n]"
proof -
  from assms have lv: "length v = n"
    and pv: "\<And>k. k < n \<Longrightarrow> v ! k < n \<and> p ! (v ! k) = k"
    by (simp_all add: inverse_maps_def)
  have d: "distinct v"
    unfolding distinct_conv_nth
  proof (intro allI impI)
    fix i j
    assume "i < length v" "j < length v" "i \<noteq> j"
    then show "v ! i \<noteq> v ! j" using pv [of i] pv [of j] lv by metis
  qed
  have sub: "set v \<subseteq> {0..<n}"
    using pv lv by (auto simp: in_set_conv_nth)
  have "card (set v) = card {0..<n}"
    using d lv by (simp add: distinct_card)
  then have "set v = {0..<n}"
    using sub by (intro card_subset_eq) simp_all
  then have "mset_set (set v) = mset_set {0..<n}" by simp
  then show ?thesis
    using d by (simp add: mset_set_set)
qed

text \<open>
  Claim C1. For two parents of equal length, each a permutation of
  \<open>0, \<dots>, size - 1\<close>, and every generator, partially-matched crossover returns (no
  assertion fails) and each offspring holds exactly the values of its parent, each once:
  it is again a permutation of \<open>0, \<dots>, size - 1\<close>.
\<close>

theorem CrossoverPmx_keeps_permutations:
  assumes "length value0 = length value1"
    and "mset value0 = mset [0..<length value0]"
    and "mset value1 = mset [0..<length value1]"
  shows "\<exists>v0 v1 g'. CrossoverPmx value0 value1 g = Inr (v0, v1, g')
           \<and> mset v0 = mset value0 \<and> mset v1 = mset value1
           \<and> distinct v0 \<and> distinct v1"
proof -
  define n where "n = length value0"
  have n1: "length value1 = n" using assms(1) by (simp add: n_def)
  have m0: "mset value0 = mset [0..<n]" and m1: "mset value1 = mset [0..<n]"
    using assms(2,3) n1 by (simp_all add: n_def)
  have d0: "distinct value0" and d1: "distinct value1"
    using perm_upt_facts(2) [OF m0] perm_upt_facts(2) [OF m1] by simp_all
  obtain i0 g1 where u0: "uniform_int 0 n g = (i0, g1)" by (cases "uniform_int 0 n g")
  obtain i1 g2 where u1: "uniform_int 0 n g1 = (i1, g2)" by (cases "uniform_int 0 n g1")
  have b0: "i0 \<le> n" using uniform_int_le [of 0 n g] u0 by simp
  have b1: "i1 \<le> n" using uniform_int_le [of 0 n g1] u1 by simp
  define index0 where "index0 = (if i0 > i1 then i1 else i0)"
  define index1 where "index1 = (if i0 > i1 then i0 else i1)"
  have hi: "index1 \<le> n" using b0 b1 by (simp add: index1_def)
  show ?thesis
  proof (cases "index0 = index1")
    case True
    then have "CrossoverPmx value0 value1 g = Inr (value0, value1, g2)"
      using u0 u1 n1 by (simp add: CrossoverPmx_def n_def index0_def index1_def)
    then show ?thesis using d0 d1 by simp
  next
    case False
    have r0: "list_all (\<lambda>x. x < n) (take n value0)"
      using perm_upt_facts(3) [OF m0] by (auto simp: list_all_iff dest: in_set_takeD)
    have r1: "list_all (\<lambda>x. x < n) (take n value1)"
      using perm_upt_facts(3) [OF m1] by (auto simp: list_all_iff dest: in_set_takeD)
    obtain v0 v1 p0 p1 where
      f: "fold pmx_step [index0..<index1]
            (value0, value1, pmx_inverse n value0, pmx_inverse n value1) = (v0, v1, p0, p1)"
      by (cases "fold pmx_step [index0..<index1]
            (value0, value1, pmx_inverse n value0, pmx_inverse n value1)")
    have c: "CrossoverPmx value0 value1 g = Inr (v0, v1, g2)"
      using u0 u1 n1 False r0 r1 f
      by (simp add: CrossoverPmx_def n_def [symmetric] index0_def [symmetric]
          index1_def [symmetric])
    have "inverse_maps n v0 p0 \<and> inverse_maps n v1 p1"
    proof (rule pmx_fold_inverse_maps [OF _ _ _ f])
      show "\<forall>i \<in> set [index0..<index1]. i < n" using hi by simp
      show "inverse_maps n value0 (pmx_inverse n value0)" using m0 by (rule pmx_inverse_correct)
      show "inverse_maps n value1 (pmx_inverse n value1)" using m1 by (rule pmx_inverse_correct)
    qed
    then have "mset v0 = mset [0..<n]" "mset v1 = mset [0..<n]"
      using inverse_maps_perm [of n v0 p0] inverse_maps_perm [of n v1 p1] by blast+
    then have "mset v0 = mset value0" "mset v1 = mset value1"
      using m0 m1 by simp_all
    moreover from this have "distinct v0" "distinct v1"
      using d0 d1 by (metis mset_eq_imp_distinct_iff)+
    ultimately show ?thesis using c by blast
  qed
qed


theorem CrossoverPmx_keeps_permutations_witness:
  "length [0, 1, 2, 3 :: nat] = length [1, 2, 3, 0 :: nat]
   \<and> mset [0, 1, 2, 3 :: nat] = mset [0..<length [0, 1, 2, 3 :: nat]]
   \<and> mset [1, 2, 3, 0 :: nat] = mset [0..<length [1, 2, 3, 0 :: nat]]
   \<and> (\<exists>g'. CrossoverPmx [0, 1, 2, 3] [1, 2, 3, 0] (\<lambda>i. if i = 0 then 1 else 3)
              = Inr ([0, 2, 3, 1], [2, 3, 1, 0], g'))
   \<and> mset [0, 2, 3, 1 :: nat] = mset [0, 1, 2, 3 :: nat]
   \<and> mset [2, 3, 1, 0 :: nat] = mset [1, 2, 3, 0 :: nat]"
proof -
  have l: "length [0, 1, 2, 3 :: nat] = length [1, 2, 3, 0 :: nat]" by simp
  have a: "mset [0, 1, 2, 3 :: nat] = mset [0..<length [0, 1, 2, 3 :: nat]]"
    by (simp add: numeral_2_eq_2 numeral_3_eq_3)
  have b: "mset [1, 2, 3, 0 :: nat] = mset [0..<length [1, 2, 3, 0 :: nat]]"
    by (simp add: numeral_2_eq_2 numeral_3_eq_3)
  have r: "\<exists>g'. CrossoverPmx [0, 1, 2, 3] [1, 2, 3, 0] (\<lambda>i. if i = 0 then 1 else 3)
              = Inr ([0, 2, 3, 1], [2, 3, 1, 0], g')"
    by (simp add: CrossoverPmx_def uniform_int_def rng_next_def pmx_inverse_def
        pmx_step_def upt_rec Let_def)
  from CrossoverPmx_keeps_permutations [OF l a b, of "\<lambda>i. if i = 0 then 1 else 3"] r
  have "mset [0, 2, 3, 1 :: nat] = mset [0, 1, 2, 3 :: nat]
      \<and> mset [2, 3, 1, 0 :: nat] = mset [1, 2, 3, 0 :: nat]"
    by auto
  with l a b r show ?thesis by blast
qed

subsection \<open>Termination combinators\<close>

lemma length_members_run: "length (members_run call funcs args) = length funcs"
  by (induction funcs arbitrary: args) (simp_all split: prod.splits)

lemma TerminationOr_Check_first_true:
  "TerminationOr_Check call funcs args =
     (let rs = members_run call funcs args;
          k = length (takeWhile (\<lambda>(r, f'). \<not> r) rs)
      in (k < length funcs, map snd (take (Suc k) rs) @ drop (Suc k) funcs))"
proof (induction funcs arbitrary: args)
  case Nil
  show ?case by simp
next
  case (Cons f funcs)
  obtain r f' args' where c: "call f args = (r, f', args')" by (cases "call f args")
  show ?case
  proof (cases r)
    case True
    then show ?thesis using c by simp
  next
    case False
    then show ?thesis using c Cons.IH [of args'] by (simp add: Let_def split: prod.splits)
  qed
qed

lemma TerminationAnd_Check_first_false:
  "TerminationAnd_Check call funcs args =
     (let rs = members_run call funcs args;
          k = length (takeWhile (\<lambda>(r, f'). r) rs)
      in (\<not> k < length funcs, map snd (take (Suc k) rs) @ drop (Suc k) funcs))"
proof (induction funcs arbitrary: args)
  case Nil
  show ?case by simp
next
  case (Cons f funcs)
  obtain r f' args' where c: "call f args = (r, f', args')" by (cases "call f args")
  show ?case
  proof (cases r)
    case True
    then show ?thesis using c Cons.IH [of args'] by (simp add: Let_def split: prod.splits)
  next
    case False
    then show ?thesis using c by simp
  qed
qed

text \<open>
  Claim C8. Calling \<open>Or\<close> over no member returns false, calling \<open>And\<close> over no
  member returns true. Calling \<open>Or\<close> returns true exactly when some member returns
  true when the members are called from the left; the members up to and including the
  first such one have been called and are in the state their call left, the members
  after it have not been called and are as they were. When no member returns true all
  have been called and the result is false. \<open>And\<close> is the same with the first member
  that returns false, and returns true when there is none. The caller's arguments are
  never written to. This holds for members of any type, with any call.
\<close>

theorem Termination_combinators_short_circuit:
  "TerminationOr_call call [] args = (False, [], args)
   \<and> TerminationAnd_call call [] args = (True, [], args)
   \<and> TerminationOr_call call funcs args =
       (let rs = members_run call funcs args;
            k = length (takeWhile (\<lambda>(r, f'). \<not> r) rs)
        in (k < length funcs, map snd (take (Suc k) rs) @ drop (Suc k) funcs, args))
   \<and> TerminationAnd_call call funcs args =
       (let rs = members_run call funcs args;
            k = length (takeWhile (\<lambda>(r, f'). r) rs)
        in (\<not> k < length funcs, map snd (take (Suc k) rs) @ drop (Suc k) funcs, args))"
  by (simp add: TerminationOr_call_def TerminationAnd_call_def
      TerminationOr_Check_first_true TerminationAnd_Check_first_false Let_def)

lemma TerminationOr_call_nested_example:
  "TerminationOr_call (Termination_member_call 0)
       [Inl (Flag False), Inr [Flag True, Generation 1 0], Inl (Generation 5 0)]
       ([] :: unit Population, \<lambda>_. 0)
     = (True, [Inl (Flag False), Inr [Flag True, Generation 1 1], Inl (Generation 5 0)],
        ([], \<lambda>_. 0))"
  by (simp add: TerminationOr_call_def TerminationAnd_call_def Termination_member_call_def)

theorem Termination_combinators_short_circuit_witness:
  "TerminationOr_call (Termination_call 0) [Flag False, Generation 1 0, Generation 5 0]
       ([] :: unit Population, \<lambda>_. 0)
     = (True, [Flag False, Generation 1 1, Generation 5 0], ([], \<lambda>_. 0))
   \<and> TerminationAnd_call (Termination_call 0) [Flag True, Generation 3 0, Generation 1 0]
       ([] :: unit Population, \<lambda>_. 0)
     = (False, [Flag True, Generation 3 1, Generation 1 0], ([], \<lambda>_. 0))"
  using Termination_combinators_short_circuit
      [of "Termination_call 0" "([] :: unit Population, \<lambda>_. 0)"
          "[Flag False, Generation 1 0, Generation 5 0]"]
    Termination_combinators_short_circuit
      [of "Termination_call 0" "([] :: unit Population, \<lambda>_. 0)"
          "[Flag True, Generation 3 0, Generation 1 0]"]
  by (simp add: Let_def)

subsection \<open>The step of the genetic algorithm\<close>

lemma Evaluate_clean:
  "list_all (\<lambda>it. \<not> is_dirty it) P \<Longrightarrow> Evaluate func P g = Inr (P, g)"
  by (induction P) simp_all

lemma Evaluate_frame:
  "Evaluate func P g = Inr (P', g') \<Longrightarrow>
     length P' = length P
     \<and> list_all (\<lambda>it. \<not> is_dirty it) P'
     \<and> (\<forall>i < length P. \<not> is_dirty (P ! i) \<longrightarrow> P' ! i = P ! i)"
proof (induction P arbitrary: g P' g')
  case Nil
  then show ?case by simp
next
  case (Cons it P)
  show ?case
  proof (cases "is_dirty it")
    case True
    obtain f d h where f: "func (data it) g = (f, d, h)" by (cases "func (data it) g")
    from Cons.prems True f obtain Q where
      r: "Evaluate func P h = Inr (Q, g')" and P': "P' = \<lparr>data = d, fitness = f\<rparr> # Q"
      and nn: "0 \<le> f"
      by (auto split: if_splits sum.splits)
    from Cons.IH [OF r] have
      "length Q = length P" "list_all (\<lambda>it. \<not> is_dirty it) Q"
      "\<forall>i < length P. \<not> is_dirty (P ! i) \<longrightarrow> Q ! i = P ! i"
      by simp_all
    then show ?thesis using True P' nn
      by (auto simp: nth_Cons is_dirty_def split: nat.splits)
  next
    case False
    from Cons.prems False obtain Q where
      r: "Evaluate func P g = Inr (Q, g')" and P': "P' = it # Q"
      by (auto split: sum.splits)
    from Cons.IH [OF r] have
      "length Q = length P" "list_all (\<lambda>it. \<not> is_dirty it) Q"
      "\<forall>i < length P. \<not> is_dirty (P ! i) \<longrightarrow> Q ! i = P ! i"
      by simp_all
    then show ?thesis using P' False by (auto simp: nth_Cons split: nat.splits)
  qed
qed

text \<open>
  Claim C4. The step evaluates the population and runs the selection operator before
  it looks at the pool. When the pool is empty the step returns false at once and
  modifies nothing: the population is the one evaluation and selection left, the functor
  object and its termination state are unchanged, and no crossover, mutation,
  replacement or termination call has happened. Evaluation leaves no individual dirty
  and does not touch a clean one; so a population without dirty individuals, which the
  selection operator hands back in the order it received it, is returned exactly as it
  was given.
\<close>

theorem Ga_step_empty_pool:
  assumes "0 \<le> mutation_rate G" "mutation_rate G \<le> 1"
    and "0 \<le> crossover_rate G" "crossover_rate G \<le> 1"
    and "population \<noteq> []"
    and "Evaluate (evaluation G) population g = Inr (pop1, g1)"
    and "selection G pop1 [] g1 = Inr (pop2, [], g2)"
  shows "Ga_step G population g = Inr (False, pop2, G, g2)
       \<and> length pop1 = length population
       \<and> list_all (\<lambda>it. \<not> is_dirty it) pop1
       \<and> (\<forall>i < length population. \<not> is_dirty (population ! i) \<longrightarrow> pop1 ! i = population ! i)
       \<and> (list_all (\<lambda>it. \<not> is_dirty it) population \<longrightarrow>
            pop1 = population \<and> g1 = g
            \<and> (pop2 = pop1 \<longrightarrow> Ga_step G population g = Inr (False, population, G, g2)))"
proof -
  have s: "Ga_step G population g = Inr (False, pop2, G, g2)"
    using assms by (simp add: Ga_step_def)
  have c: "pop1 = population \<and> g1 = g" if "list_all (\<lambda>it. \<not> is_dirty it) population"
    using Evaluate_clean [OF that, of "evaluation G" g] assms(6) by simp
  show ?thesis
    using s c Evaluate_frame [OF assms(6)] by auto
qed

theorem Ga_step_empty_pool_witness:
  "(0::real) \<le> mutation_rate Ga_example \<and> mutation_rate Ga_example \<le> 1
   \<and> 0 \<le> crossover_rate Ga_example \<and> crossover_rate Ga_example \<le> 1
   \<and> [\<lparr>data = (), fitness = 7\<rparr>, \<lparr>data = (), fitness = 5 :: real\<rparr>] \<noteq> []
   \<and> Evaluate (evaluation Ga_example) [\<lparr>data = (), fitness = 7\<rparr>, \<lparr>data = (), fitness = 5\<rparr>] (\<lambda>_. 0)
       = Inr ([\<lparr>data = (), fitness = 7\<rparr>, \<lparr>data = (), fitness = 5\<rparr>], \<lambda>_. 0)
   \<and> selection Ga_example [\<lparr>data = (), fitness = 7\<rparr>, \<lparr>data = (), fitness = 5\<rparr>] [] (\<lambda>_. 0)
       = Inr ([\<lparr>data = (), fitness = 7\<rparr>, \<lparr>data = (), fitness = 5\<rparr>], [], \<lambda>_. 0)
   \<and> list_all (\<lambda>it. \<not> is_dirty it) [\<lparr>data = (), fitness = 7\<rparr>, \<lparr>data = (), fitness = 5\<rparr>]
   \<and> Ga_step Ga_example [\<lparr>data = (), fitness = 7\<rparr>, \<lparr>data = (), fitness = 5\<rparr>] (\<lambda>_. 0)
       = Inr (False, [\<lparr>data = (), fitness = 7\<rparr>, \<lparr>data = (), fitness = 5\<rparr>], Ga_example, \<lambda>_. 0)"
proof -
  have r: "(0::real) \<le> mutation_rate Ga_example" "mutation_rate Ga_example \<le> 1"
    "0 \<le> crossover_rate Ga_example" "crossover_rate Ga_example \<le> 1"
    by (simp_all add: Ga_example_def)
  have n: "[\<lparr>data = (), fitness = 7\<rparr>, \<lparr>data = (), fitness = 5 :: real\<rparr>] \<noteq> []" by simp
  have e: "Evaluate (evaluation Ga_example) [\<lparr>data = (), fitness = 7\<rparr>, \<lparr>data = (), fitness = 5\<rparr>] (\<lambda>_. 0)
       = Inr ([\<lparr>data = (), fitness = 7\<rparr>, \<lparr>data = (), fitness = 5\<rparr>], \<lambda>_. 0)"
    by (simp add: Ga_example_def is_dirty_def)
  have s: "selection Ga_example [\<lparr>data = (), fitness = 7\<rparr>, \<lparr>data = (), fitness = 5\<rparr>] [] (\<lambda>_. 0)
       = Inr ([\<lparr>data = (), fitness = 7\<rparr>, \<lparr>data = (), fitness = 5\<rparr>], [], \<lambda>_. 0)"
    by (simp add: Ga_example_def SelectionTruncate_def SelectionSize_call_def
        SelectionSize_default_def sort_desc_def)
  have c: "list_all (\<lambda>it. \<not> is_dirty it) [\<lparr>data = (), fitness = 7\<rparr>, \<lparr>data = (), fitness = 5\<rparr>]"
    by (simp add: is_dirty_def)
  from Ga_step_empty_pool [OF r n e s] r n e s c show ?thesis by simp
qed

text \<open>
  A dirty individual has received its fitness by the time the pool is looked at: the
  evaluation that the step begins with is visible in the population it returns.
\<close>

lemma Ga_step_empty_pool_after_evaluation:
  "(case Ga_step Ga_example [\<lparr>data = (), fitness = - 1\<rparr>] (\<lambda>_. 0) of
      Inl e \<Rightarrow> False
    | Inr (r, P, G', g') \<Rightarrow> r = False \<and> P = [\<lparr>data = (), fitness = 5\<rparr>])"
  by (simp add: Ga_step_def Ga_example_def is_dirty_def SelectionTruncate_def
      SelectionSize_call_def SelectionSize_default_def sort_desc_def)

subsection \<open>The PBIL update\<close>

lemma pbil_count_fold:
  "fold (\<lambda>j p. if c j then p + lr else p) js p0
     = p0 + lr * real (length (filter c js))"
  by (induction js arbitrary: p0) (simp_all add: algebra_simps)

lemma PbilUpdate_position_value:
  assumes "0 < best_count u"
  shows "PbilUpdate_position u test P p i h =
     (let blend = p * (1 - rate u) + rate u * set_frequency test P (best_count u) i;
          (m, f, h') = pbil_draws u h;
          moved = (if m then blend * (1 - mutation_shift u) + (if f then mutation_shift u else 0)
                   else blend)
      in (min (max moved (lower_bound u)) (upper_bound u), h'))"
proof -
  have b: "fold (\<lambda>j q. if test (data (P ! j)) i then q + rate u / real (best_count u) else q)
             [0..<best_count u] (p * (1 - rate u))
           = p * (1 - rate u) + rate u * set_frequency test P (best_count u) i"
    by (simp add: pbil_count_fold set_frequency_def)
  show ?thesis
    unfolding PbilUpdate_position_def pbil_draws_def Let_def b
    by (simp split: prod.splits)
qed

lemma PbilUpdate_fold:
  assumes bc: "0 < best_count u"
  shows "k \<le> length prob \<Longrightarrow>
   fold (\<lambda>i (pr, h). let (p, h') = PbilUpdate_position u test P (pr ! i) i h
                       in (pr[i := p], h')) [0..<k] (prob, g) = (prob', g')
   \<Longrightarrow> length prob' = length prob
     \<and> g' = pbil_tape u g k
     \<and> (\<forall>i < k. prob' ! i = fst (PbilUpdate_position u test P (prob ! i) i (pbil_tape u g i)))
     \<and> (\<forall>i \<ge> k. i < length prob \<longrightarrow> prob' ! i = prob ! i)"
proof (induction k arbitrary: prob' g')
  case 0
  then show ?case by simp
next
  case (Suc k)
  let ?f = "\<lambda>i (pr, h). let (p, h') = PbilUpdate_position u test P (pr ! i) i h
                       in (pr[i := p], h')"
  obtain pr h where f: "fold ?f [0..<k] (prob, g) = (pr, h)"
    by (cases "fold ?f [0..<k] (prob, g)")
  have ih: "length pr = length prob" "h = pbil_tape u g k"
    "\<forall>i < k. pr ! i = fst (PbilUpdate_position u test P (prob ! i) i (pbil_tape u g i))"
    "\<forall>i \<ge> k. i < length prob \<longrightarrow> pr ! i = prob ! i"
    using Suc.IH [OF _ f] Suc.prems(1) by simp_all
  obtain p h' where s: "PbilUpdate_position u test P (pr ! k) k h = (p, h')"
    by (cases "PbilUpdate_position u test P (pr ! k) k h")
  have e: "prob' = pr[k := p]" "g' = h'" using Suc.prems(2) f s by simp_all
  have prk: "pr ! k = prob ! k" using ih(3,4) Suc.prems(1) by simp
  have h': "h' = pbil_tape u g (Suc k)"
    using s ih(2) unfolding PbilUpdate_position_value [OF bc]
    by (simp add: Let_def split: prod.splits)
  have "prob' ! i = fst (PbilUpdate_position u test P (prob ! i) i (pbil_tape u g i))"
    if "i < Suc k" for i
  proof (cases "i = k")
    case True
    then show ?thesis using e s prk ih(1,2) Suc.prems(1) by simp
  next
    case False
    then have "i < k" using that by simp
    then show ?thesis using ih(3) e False by simp
  qed
  moreover have "prob' ! i = prob ! i" if "i \<ge> Suc k" "i < length prob" for i
    using that e ih(4) by simp
  ultimately show ?case using e ih(1) h' by simp
qed

text \<open>
  Claim C5, as the code has it. Let \<open>std_sort\<close> return its argument rearranged in
  descending order of fitness, whatever order it gives to equal fitnesses, and let
  \<open>best_count\<close> lie between 1 and the population size. The update returns the sorted
  population, a probability vector of the same length, and the generator after the
  draws of every position, made in order of position. At each position the new
  probability is the clamp to \<open>[lower_bound, upper_bound]\<close> of a value obtained from the
  blend \<open>old * (1 - rate) + rate * frequency\<close>, the frequency being that of set bits
  among the first \<open>best_count\<close> sorted individuals: when that position's Bernoulli draw
  of parameter \<open>mutation_prob\<close> fires, the blend is scaled by \<open>1 - mutation_shift\<close> and,
  on the fair draw that follows, \<open>mutation_shift\<close> is added, which moves it that
  fraction of the way to 0 or to 1; otherwise the blend is taken as it is.
\<close>

theorem PbilUpdate_result:
  assumes "0 < best_count u" "best_count u \<le> length population"
    and "mset (std_sort population) = mset population"
    and "sorted_wrt (\<lambda>a b. fitness a \<ge> fitness b) (std_sort population)"
  shows "\<exists>ranked prob'.
     mset ranked = mset population
     \<and> sorted_wrt (\<lambda>a b. fitness a \<ge> fitness b) ranked
     \<and> PbilUpdate_call u std_sort test prob population g
         = Inr (prob', ranked, pbil_tape u g (length prob))
     \<and> length prob' = length prob
     \<and> (\<forall>i < length prob.
          prob' ! i =
            (let blend = prob ! i * (1 - rate u)
                           + rate u * set_frequency test ranked (best_count u) i;
                 (m, f, h) = pbil_draws u (pbil_tape u g i);
                 moved = (if m then blend * (1 - mutation_shift u)
                                      + (if f then mutation_shift u else 0)
                          else blend)
             in min (max moved (lower_bound u)) (upper_bound u)))"
proof -
  let ?P = "std_sort population"
  let ?f = "\<lambda>i (pr, h). let (p, h') = PbilUpdate_position u test ?P (pr ! i) i h
                       in (pr[i := p], h')"
  obtain prob' g' where f: "fold ?f [0..<length prob] (prob, g) = (prob', g')"
    by (cases "fold ?f [0..<length prob] (prob, g)")
  have c: "PbilUpdate_call u std_sort test prob population g = Inr (prob', ?P, g')"
    using assms(1,2) f by (simp add: PbilUpdate_call_def)
  have r: "length prob' = length prob" "g' = pbil_tape u g (length prob)"
    "\<forall>i < length prob.
       prob' ! i = fst (PbilUpdate_position u test ?P (prob ! i) i (pbil_tape u g i))"
    using PbilUpdate_fold [OF assms(1) _ f] by simp_all
  have v: "prob' ! i =
      (let blend = prob ! i * (1 - rate u)
                     + rate u * set_frequency test ?P (best_count u) i;
           (m, f, h) = pbil_draws u (pbil_tape u g i);
           moved = (if m then blend * (1 - mutation_shift u)
                                + (if f then mutation_shift u else 0)
                    else blend)
       in min (max moved (lower_bound u)) (upper_bound u))" if "i < length prob" for i
    using r(3) that unfolding PbilUpdate_position_value [OF assms(1)]
    by (simp add: Let_def split: prod.splits)
  show ?thesis
    using c r(1,2) v assms(3,4) by blast
qed


lemma PbilUpdate_call_population:
  "PbilUpdate_call u std_sort test prob P g = Inr (prob', R, g') \<Longrightarrow> R = std_sort P"
  by (auto simp: PbilUpdate_call_def Let_def split: if_splits prod.splits)

text \<open>
  The mutation does not add or subtract \<open>mutation_shift\<close>: from a blend of \<open>1/4\<close>
  and a shift of \<open>1/5\<close> the mutated probability is \<open>2/5\<close>, neither \<open>1/4 + 1/5\<close>
  nor \<open>1/4 - 1/5\<close>.
\<close>

theorem PbilUpdate_counterexample:
  "(case PbilUpdate_call Pbil_example sort_desc (\<lambda>d. d) [1 / 2]
           [\<lparr>data = (\<lambda>_. False), fitness = 1\<rparr>] (\<lambda>_. 0) of
      Inl e \<Rightarrow> False
    | Inr (prob', P, g') \<Rightarrow> prob' = [2 / 5])
   \<and> (1 / 2 :: real) * (1 - rate Pbil_example)
        + rate Pbil_example
            * set_frequency (\<lambda>d. d) [\<lparr>data = (\<lambda>_. False), fitness = 1\<rparr>] 1 0 = 1 / 4
   \<and> (2 / 5 :: real) \<noteq> min (max (1 / 4) 0) 1
   \<and> (2 / 5 :: real) \<noteq> min (max (1 / 4 + mutation_shift Pbil_example) 0) 1
   \<and> (2 / 5 :: real) \<noteq> min (max (1 / 4 - mutation_shift Pbil_example) 0) 1"
  by (simp add: PbilUpdate_call_def PbilUpdate_position_def Pbil_example_def sort_desc_def
      bernoulli_def canonical_def rng_next_def set_frequency_def)

text \<open>
  A run with two individuals of equal fitness and a sort that puts the second one
  first: the frequency is read from the individual the sort ranks first.
\<close>

theorem PbilUpdate_result_witness:
  "0 < best_count Pbil_example
   \<and> best_count Pbil_example
        \<le> length [\<lparr>data = [False], fitness = 1\<rparr>, \<lparr>data = [True], fitness = 1\<rparr>]
   \<and> mset (rev (sort_key fitness [\<lparr>data = [False], fitness = 1\<rparr>, \<lparr>data = [True], fitness = 1\<rparr>]))
        = mset [\<lparr>data = [False], fitness = 1\<rparr>, \<lparr>data = [True], fitness = 1\<rparr>]
   \<and> sorted_wrt (\<lambda>a b. fitness a \<ge> fitness b)
        (rev (sort_key fitness [\<lparr>data = [False], fitness = 1\<rparr>, \<lparr>data = [True], fitness = 1\<rparr>]))
   \<and> PbilUpdate_call Pbil_example (\<lambda>P. rev (sort_key fitness P)) (\<lambda>d i. d ! i) [1 / 2]
         [\<lparr>data = [False], fitness = 1\<rparr>, \<lparr>data = [True], fitness = 1\<rparr>] (\<lambda>_. 0)
       = Inr ([4 / 5], [\<lparr>data = [True], fitness = 1\<rparr>, \<lparr>data = [False], fitness = 1\<rparr>],
              \<lambda>_. 0)"
proof -
  let ?P = "[\<lparr>data = [False], fitness = 1 :: real\<rparr>, \<lparr>data = [True], fitness = 1\<rparr>]"
  let ?Q = "[\<lparr>data = [True], fitness = 1 :: real\<rparr>, \<lparr>data = [False], fitness = 1\<rparr>]"
  have q: "rev (sort_key fitness ?P) = ?Q" by simp
  have a: "0 < best_count Pbil_example" by (simp add: Pbil_example_def)
  have b: "best_count Pbil_example \<le> length ?P" by (simp add: Pbil_example_def)
  have c: "mset (rev (sort_key fitness ?P)) = mset ?P" by simp
  have d: "sorted_wrt (\<lambda>a b. fitness a \<ge> fitness b) (rev (sort_key fitness ?P))" by simp
  have dr: "pbil_draws Pbil_example (\<lambda>_. 0) = (True, True, \<lambda>_. 0)"
    by (simp add: pbil_draws_def Pbil_example_def bernoulli_def canonical_def rng_next_def)
  have fr: "set_frequency (\<lambda>d i. d ! i) ?Q 1 0 = 1"
    by (simp add: set_frequency_def)
  from PbilUpdate_result [where std_sort = "\<lambda>P. rev (sort_key fitness P)", OF a b c d,
      of "\<lambda>d i. d ! i" "[1 / 2]" "\<lambda>_. 0"]
  obtain ranked prob' where r:
    "PbilUpdate_call Pbil_example (\<lambda>P. rev (sort_key fitness P)) (\<lambda>d i. d ! i) [1 / 2] ?P (\<lambda>_. 0)
       = Inr (prob', ranked, pbil_tape Pbil_example (\<lambda>_. 0) (length [1 / 2 :: real]))"
    "length prob' = length [1 / 2 :: real]"
    "\<forall>i < length [1 / 2 :: real].
          prob' ! i =
            (let blend = [1 / 2] ! i * (1 - rate Pbil_example)
                           + rate Pbil_example
                               * set_frequency (\<lambda>d i. d ! i) ranked (best_count Pbil_example) i;
                 (m, f, h) = pbil_draws Pbil_example (pbil_tape Pbil_example (\<lambda>_. 0) i);
                 moved = (if m then blend * (1 - mutation_shift Pbil_example)
                                      + (if f then mutation_shift Pbil_example else 0)
                          else blend)
             in min (max moved (lower_bound Pbil_example)) (upper_bound Pbil_example))"
    by blast
  have rk: "ranked = ?Q"
    using PbilUpdate_call_population [OF r(1)] q by simp
  have "prob' ! 0 = 4 / 5"
    using r(3) rk dr fr by (simp add: Pbil_example_def)
  then have p: "prob' = [4 / 5]"
    using r(2) by (cases prob') simp_all
  have t: "pbil_tape Pbil_example (\<lambda>_. 0) (length [1 / 2 :: real]) = (\<lambda>_. 0)"
    using dr by simp
  show ?thesis
    using a b c d r(1) rk p t by simp
qed

subsection \<open>The selection size in double arithmetic\<close>

lemma round_even_cases: "round_even y = \<lfloor>y\<rfloor> \<or> round_even y = \<lfloor>y\<rfloor> + 1"
  by (simp add: round_even_def Let_def)

lemma round_even_ge: "of_int m \<le> y \<Longrightarrow> m \<le> round_even y"
proof -
  assume "of_int m \<le> y"
  then have "m \<le> \<lfloor>y\<rfloor>" by (simp add: le_floor_iff)
  then show ?thesis using round_even_cases [of y] by auto
qed

lemma round_even_le: "y \<le> of_int m \<Longrightarrow> round_even y \<le> m"
proof -
  assume a: "y \<le> of_int m"
  then have f: "\<lfloor>y\<rfloor> \<le> m" by (simp add: floor_le_iff) 
  show ?thesis
  proof (cases "\<lfloor>y\<rfloor> = m")
    case True
    then have "y = of_int m" using a of_int_floor_le [of y] by simp
    then show ?thesis by (simp add: round_even_def)
  next
    case False
    then have "\<lfloor>y\<rfloor> + 1 \<le> m" using f by simp
    then show ?thesis using round_even_cases [of y] f by auto
  qed
qed

lemma powi_nonpos: "n \<le> 0 \<Longrightarrow> (2::real) powi n = 1 / 2 ^ nat (- n)"
  by (cases "n = 0") (simp_all add: power_int_def power_one_over [symmetric] inverse_eq_divide)

lemma log2_less_nat: "0 < x \<Longrightarrow> x < 2 ^ n \<Longrightarrow> log 2 x < real n"
proof -
  assume a: "0 < x" "x < 2 ^ n"
  then have "log 2 x < log 2 (2 ^ n)" by (simp del: log_pow_cancel)
  then show ?thesis by simp
qed

lemma exponent_le_52:
  assumes "0 < x" "x < 2 ^ 53"
  shows "max \<lfloor>log 2 x\<rfloor> (- 1022) \<le> 52"
proof -
  have "log 2 x < real 53" using assms by (rule log2_less_nat)
  then have "\<lfloor>log 2 x\<rfloor> < 53" by (simp add: floor_less_iff)
  then show ?thesis by simp
qed

lemma round_double_scaled:
  assumes "0 < x" "x < 2 ^ 53"
  shows "\<exists>d::nat. round_double x = of_int (round_even (x * 2 ^ d)) / 2 ^ d"
proof -
  define e where "e = max \<lfloor>log 2 x\<rfloor> (- 1022)"
  have "e \<le> 52" unfolding e_def using assms by (rule exponent_le_52)
  then have u: "(2::real) powi (e - 52) = 1 / 2 ^ nat (52 - e)"
    using powi_nonpos [of "e - 52"] by simp
  have "round_double x = 2 powi (e - 52) * of_int (round_even (x / 2 powi (e - 52)))"
    using assms(1) by (simp add: round_double_def Let_def e_def)
  then have "round_double x = of_int (round_even (x * 2 ^ nat (52 - e))) / 2 ^ nat (52 - e)"
    unfolding u by simp
  then show ?thesis by blast
qed

lemma round_double_le_int:
  assumes "0 \<le> x" "x < 2 ^ 53" "x \<le> of_int j"
  shows "round_double x \<le> of_int j"
proof (cases "x = 0")
  case True
  then show ?thesis using assms(3) by (simp add: round_double_def)
next
  case False
  then have "0 < x" using assms(1) by simp
  from round_double_scaled [OF this assms(2)] obtain d :: nat where
    d: "round_double x = of_int (round_even (x * 2 ^ d)) / 2 ^ d" by blast
  have "x * 2 ^ d \<le> of_int (j * 2 ^ d)"
    using assms(3) by (simp add: mult_right_mono)
  then have "round_even (x * 2 ^ d) \<le> j * 2 ^ d" by (rule round_even_le)
  then have "(of_int (round_even (x * 2 ^ d)) :: real) \<le> of_int (j * 2 ^ d)"
    by (simp only: of_int_le_iff)
  then have "of_int (round_even (x * 2 ^ d)) / 2 ^ d \<le> (of_int j :: real)"
    by (simp add: divide_le_eq)
  then show ?thesis using d by simp
qed

lemma round_double_ge_int:
  assumes "0 \<le> x" "x < 2 ^ 53" "of_int j \<le> x"
  shows "of_int j \<le> round_double x"
proof (cases "x = 0")
  case True
  then show ?thesis using assms(3) by (simp add: round_double_def)
next
  case False
  then have "0 < x" using assms(1) by simp
  from round_double_scaled [OF this assms(2)] obtain d :: nat where
    d: "round_double x = of_int (round_even (x * 2 ^ d)) / 2 ^ d" by blast
  have "of_int (j * 2 ^ d) \<le> x * 2 ^ d"
    using assms(3) by (simp add: mult_right_mono)
  then have "j * 2 ^ d \<le> round_even (x * 2 ^ d)" by (rule round_even_ge)
  then have "(of_int (j * 2 ^ d) :: real) \<le> of_int (round_even (x * 2 ^ d))"
    by (simp only: of_int_le_iff)
  then have "(of_int j :: real) \<le> of_int (round_even (x * 2 ^ d)) / 2 ^ d"
    by (simp add: le_divide_eq)
  then show ?thesis using d by simp
qed

lemma round_double_nat:
  assumes "n < 2 ^ 53"
  shows "round_double (real n) = real n"
proof -
  have b: "real n < 2 ^ 53" using assms by (metis of_nat_less_iff of_nat_numeral of_nat_power)
  have "round_double (real n) \<le> of_int (int n)"
    using b by (intro round_double_le_int) simp_all
  moreover have "of_int (int n) \<le> round_double (real n)"
    using b by (intro round_double_ge_int) simp_all
  ultimately show ?thesis by simp
qed


lemma ceiling_round_double:
  assumes "0 \<le> x" "x < 2 ^ 53"
  shows "\<lceil>round_double x\<rceil> \<le> \<lceil>x\<rceil>" and "\<lceil>x\<rceil> - 1 \<le> \<lceil>round_double x\<rceil>"
proof -
  have "round_double x \<le> of_int \<lceil>x\<rceil>"
    using assms by (intro round_double_le_int) simp_all
  then show "\<lceil>round_double x\<rceil> \<le> \<lceil>x\<rceil>" by (simp add: ceiling_le_iff)
  have "of_int (\<lceil>x\<rceil> - 1) \<le> x"
    using ceiling_correct [of x] by simp
  then have "of_int (\<lceil>x\<rceil> - 1) \<le> round_double x"
    using assms by (intro round_double_ge_int) simp_all
  then have "of_int (\<lceil>x\<rceil> - 1) \<le> (of_int \<lceil>round_double x\<rceil> :: real)"
    using le_of_int_ceiling [of "round_double x"] by linarith
  then show "\<lceil>x\<rceil> - 1 \<le> \<lceil>round_double x\<rceil>" by (simp only: of_int_le_iff)
qed

text \<open>
  Claim C7, as the code has it. A size built from an absolute count resolves to
  \<open>min(count, source_size)\<close>. A size built from a percentage in \<open>[0, 1]\<close> resolves, for
  a source size below \<open>2^53\<close>, to the ceiling of the double nearest to
  \<open>percentage * source_size\<close>. That is \<open>ceil(percentage * source_size)\<close>, the value of
  the exact call, or one less; it is never more than the source size.
\<close>

theorem SelectionSize_resolution:
  "SelectionSize_call_double (SelectionSize_count c) n = Inr (min c n)
   \<and> (0 \<le> p \<and> p \<le> 1 \<and> n < 2 ^ 53 \<longrightarrow>
        (\<exists>k. SelectionSize_call_double (SelectionSize_percentage p) n = Inr k
            \<and> k = nat \<lceil>round_double (p * real n)\<rceil>
            \<and> k \<le> n
            \<and> k \<le> nat \<lceil>p * real n\<rceil> \<and> nat \<lceil>p * real n\<rceil> \<le> k + 1
            \<and> SelectionSize_call (SelectionSize_percentage p) n = Inr (nat \<lceil>p * real n\<rceil>)))"
proof (intro conjI impI)
  show "SelectionSize_call_double (SelectionSize_count c) n = Inr (min c n)"
    by (simp add: SelectionSize_call_double_def SelectionSize_count_def round_double_def)
next
  assume a: "0 \<le> p \<and> p \<le> 1 \<and> n < 2 ^ 53"
  let ?x = "p * real n"
  have n: "round_double (real n) = real n" using a by (simp add: round_double_nat)
  have x0: "0 \<le> ?x" using a by simp
  have xn: "?x \<le> real n" using a by (simp add: fraction_le)
  have "real n < 2 ^ 53" using a by (metis of_nat_less_iff of_nat_numeral of_nat_power)
  then have x53: "?x < 2 ^ 53" using xn by linarith
  have c1: "\<lceil>round_double ?x\<rceil> \<le> \<lceil>?x\<rceil>" and c2: "\<lceil>?x\<rceil> - 1 \<le> \<lceil>round_double ?x\<rceil>"
    using ceiling_round_double [OF x0 x53] by simp_all
  have "\<lceil>?x\<rceil> \<le> int n" using xn by (simp add: ceiling_le_iff)
  then have c3: "nat \<lceil>round_double ?x\<rceil> \<le> n" using c1 by linarith
  have r: "SelectionSize_call_double (SelectionSize_percentage p) n
      = Inr (nat \<lceil>round_double ?x\<rceil>)"
    using a n by (simp add: SelectionSize_call_double_def SelectionSize_percentage_def)
  have e: "SelectionSize_call (SelectionSize_percentage p) n = Inr (nat \<lceil>?x\<rceil>)"
    using a by (simp add: SelectionSize_call_def SelectionSize_percentage_def)
  have "nat \<lceil>round_double ?x\<rceil> \<le> nat \<lceil>?x\<rceil>" using c1 by linarith
  moreover have "nat \<lceil>?x\<rceil> \<le> nat \<lceil>round_double ?x\<rceil> + 1" using c2 by linarith
  ultimately show "\<exists>k. SelectionSize_call_double (SelectionSize_percentage p) n = Inr k
            \<and> k = nat \<lceil>round_double (p * real n)\<rceil>
            \<and> k \<le> n
            \<and> k \<le> nat \<lceil>p * real n\<rceil> \<and> nat \<lceil>p * real n\<rceil> \<le> k + 1
            \<and> SelectionSize_call (SelectionSize_percentage p) n = Inr (nat \<lceil>p * real n\<rceil>)"
    using r c3 e by simp
qed

lemma round_double_normal:
  assumes "0 < x" "2 powr (of_int e) \<le> x" "x < 2 powr (of_int e + 1)" "- 1022 \<le> e"
  shows "round_double x = 2 powi (e - 52) * of_int (round_even (x / 2 powi (e - 52)))"
proof -
  have "\<lfloor>log 2 x\<rfloor> = e"
    using assms(1,2,3) by (simp add: floor_log_eq_powr_iff)
  then show ?thesis
    using assms(1,4) by (simp add: round_double_def Let_def)
qed

text \<open>
  Concrete products. The double nearest to 0.4 is \<open>3602879701896397 / 2^53\<close>, a
  little more than \<open>2/5\<close>; the double nearest to 0.07 is \<open>5044031582654956 / 2^56\<close>.
\<close>

lemma SelectionSize_call_double_percentage:
  assumes "0 \<le> p" "p \<le> 1" "round_double (real n) = real n"
    and "round_double (p * real n) = y" "nat \<lceil>y\<rceil> = k"
  shows "SelectionSize_call_double (SelectionSize_percentage p) n = Inr k"
  using assms by (simp add: SelectionSize_call_double_def SelectionSize_percentage_def)

lemma round_even_quarter: "round_even (4503599627370496 + 1 / 4) = 4503599627370496"
proof -
  have "\<lfloor>4503599627370496 + 1 / 4 :: real\<rfloor> = 4503599627370496"
    by (simp add: floor_eq_iff)
  then show ?thesis by (simp add: round_even_def Let_def)
qed

lemma round_even_three_quarters: "round_even (7881299347898368 + 3 / 4) = 7881299347898369"
proof -
  have "\<lfloor>7881299347898368 + 3 / 4 :: real\<rfloor> = 7881299347898368"
    by (simp add: floor_eq_iff)
  then show ?thesis by (simp add: round_even_def Let_def)
qed

lemma round_double_two_fifths_of_twenty:
  "round_double (3602879701896397 / 2 ^ 53 * 20) = 8"
proof -
  let ?x = "3602879701896397 / 2 ^ 53 * 20 :: real"
  have 1: "round_double ?x = 2 powi (3 - 52) * of_int (round_even (?x / 2 powi (3 - 52)))"
    by (rule round_double_normal) simp_all
  have 2: "?x / 2 powi (3 - 52) = 4503599627370496 + 1 / 4"
    by (simp add: power_int_minus)
  have "round_double ?x = 2 powi (3 - 52) * of_int (4503599627370496 :: int)"
    by (simp only: 1 2 round_even_quarter)
  also have "\<dots> = 8" by (simp add: power_int_minus)
  finally show ?thesis .
qed

lemma round_double_seven_percent_of_hundred:
  "round_double (5044031582654956 / 2 ^ 56 * 100) = 7881299347898369 / 2 ^ 50"
proof -
  let ?x = "5044031582654956 / 2 ^ 56 * 100 :: real"
  have 1: "round_double ?x = 2 powi (2 - 52) * of_int (round_even (?x / 2 powi (2 - 52)))"
    by (rule round_double_normal) simp_all
  have 2: "?x / 2 powi (2 - 52) = 7881299347898368 + 3 / 4"
    by (simp add: power_int_minus)
  have "round_double ?x = 2 powi (2 - 52) * of_int (7881299347898369 :: int)"
    by (simp only: 1 2 round_even_three_quarters)
  also have "\<dots> = 7881299347898369 / 2 ^ 50" by (simp add: power_int_minus)
  finally show ?thesis .
qed

lemma SelectionSize_call_double_seven_percent:
  "SelectionSize_call_double (SelectionSize_percentage (5044031582654956 / 2 ^ 56)) 100 = Inr 8"
proof (rule SelectionSize_call_double_percentage)
  show "(0::real) \<le> 5044031582654956 / 2 ^ 56" by simp
  show "(5044031582654956 / 2 ^ 56 :: real) \<le> 1" by simp
  show "round_double (real (100 :: nat)) = real (100 :: nat)"
    by (rule round_double_nat) simp
  show "round_double (5044031582654956 / 2 ^ 56 * real (100 :: nat)) = 7881299347898369 / 2 ^ 50"
    by (simp only: of_nat_numeral round_double_seven_percent_of_hundred)
  show "nat \<lceil>7881299347898369 / 2 ^ 50 :: real\<rceil> = 8"
    by (simp add: ceiling_eq_iff)
qed

text \<open>
  The percentage 0.4 on a source of 20, the selection of the test programs: the exact
  product is a little more than 8 and its ceiling is 9; the double product is 8, and the
  call returns 8.
\<close>

theorem SelectionSize_resolution_counterexample:
  "(0::real) \<le> 3602879701896397 / 2 ^ 53 \<and> (3602879701896397 / 2 ^ 53 :: real) \<le> 1
   \<and> SelectionSize_call_double (SelectionSize_percentage (3602879701896397 / 2 ^ 53)) 20 = Inr 8
   \<and> nat \<lceil>(3602879701896397 / 2 ^ 53 :: real) * real (20 :: nat)\<rceil> = 9"
proof -
  have c: "nat \<lceil>(3602879701896397 / 2 ^ 53 :: real) * real (20 :: nat)\<rceil> = 9"
    by (simp add: ceiling_eq_iff)
  have "SelectionSize_call_double (SelectionSize_percentage (3602879701896397 / 2 ^ 53)) 20 = Inr 8"
  proof (rule SelectionSize_call_double_percentage)
    show "(0::real) \<le> 3602879701896397 / 2 ^ 53" by simp
    show "(3602879701896397 / 2 ^ 53 :: real) \<le> 1" by simp
    show "round_double (real (20 :: nat)) = real (20 :: nat)"
      by (rule round_double_nat) simp
    show "round_double (3602879701896397 / 2 ^ 53 * real (20 :: nat)) = 8"
      by (simp only: of_nat_numeral round_double_two_fifths_of_twenty)
    show "nat \<lceil>8 :: real\<rceil> = 8" by simp
  qed
  then show ?thesis using c by simp
qed

theorem SelectionSize_resolution_witness:
  "SelectionSize_call_double (SelectionSize_count 7) 5 = Inr 5
   \<and> (0::real) \<le> 1 / 2 \<and> (1 / 2 :: real) \<le> 1 \<and> (6 :: nat) < 2 ^ 53
   \<and> SelectionSize_call_double (SelectionSize_percentage (1 / 2)) 6 = Inr 3"
proof -
  have h: "(0::real) \<le> 1 / 2 \<and> (1 / 2 :: real) \<le> 1 \<and> (6 :: nat) < 2 ^ 53" by simp
  have c: "nat \<lceil>(1 / 2 :: real) * real (6 :: nat)\<rceil> = 3" by simp
  have r: "round_double ((1 / 2 :: real) * real (6 :: nat)) = 3"
    using round_double_nat [of 3] by simp
  from SelectionSize_resolution [where c = 0 and n = 6 and p = "1 / 2", THEN conjunct2, THEN mp, OF h]
  obtain k where "SelectionSize_call_double (SelectionSize_percentage (1 / 2)) 6 = Inr k"
    and "k = nat \<lceil>round_double ((1 / 2 :: real) * real (6 :: nat))\<rceil>" by blast
  then have "SelectionSize_call_double (SelectionSize_percentage (1 / 2)) 6 = Inr 3"
    using r by simp
  moreover have "SelectionSize_call_double (SelectionSize_count 7) 5 = Inr 5"
    using SelectionSize_resolution [where c = 7 and n = 5 and p = 0] by simp
  ultimately show ?thesis using h by simp
qed

end
